theory Spec2Isabelle
  imports Complex_Main "HOL-Library.Word"
begin

section \<open>Python and NumPy values\<close>

text \<open>
  The adapter \<^verbatim>\<open>magent_parallel_env\<close> of \<^verbatim>\<open>pettingzoo/magent/magent_env.py\<close>
  is embedded with explicit state passing.  Exceptions are values: a method that can
  raise returns \<open>error + 'a\<close>, and a method that mutates the object returns the object
  as it is left behind, also when it raises.
\<close>

datatype error =
  AttributeError | KeyError | IndexError | ValueError | OverflowError | AssertionError

type_synonym agent_id = string
type_synonym handle = nat
type_synonym int32 = "32 word"

text \<open>
  An \<^verbatim>\<open>ndarray\<close> is the list of its sub-arrays along the first axis; the
  \<^verbatim>\<open>float32\<close> entries are carried as reals (the adapter never computes with them).
  One agent's observation has three axes (height, width, channels).
\<close>

type_synonym obs = "real list list list"

text \<open>Python's index normalisation: negative indices count from the end.\<close>

definition py_index :: "nat \<Rightarrow> int \<Rightarrow> nat option" where
  "py_index n i =
     (if 0 \<le> i \<and> i < int n then Some (nat i)
      else if - int n \<le> i \<and> i < 0 then Some (nat (int n + i))
      else None)"

text \<open>
  \<^verbatim>\<open>for i, v in pairs: xs[i] = v\<close> on a Python list, and the assignments that a
  NumPy fancy-index store performs in turn (a later store to the same slot wins).
\<close>

fun setitems :: "'a list \<Rightarrow> (int \<times> 'a) list \<Rightarrow> error + 'a list" where
  "setitems xs [] = Inr xs"
| "setitems xs ((i, v) # rest) =
     (case py_index (length xs) i of
        None \<Rightarrow> Inl IndexError
      | Some j \<Rightarrow> setitems (xs[j := v]) rest)"

text \<open>
  \<^verbatim>\<open>arr[ids] = vals\<close> for one-dimensional arrays: \<^verbatim>\<open>vals\<close> has the length of
  \<^verbatim>\<open>ids\<close> or is broadcast from length one; any other length is a shape mismatch.
\<close>

definition np_setitem :: "'a list \<Rightarrow> int list \<Rightarrow> 'a list \<Rightarrow> error + 'a list" where
  "np_setitem arr ids vals =
     (if length vals = length ids then setitems arr (zip ids vals)
      else if length vals = 1 then setitems arr (map (\<lambda>i. (i, hd vals)) ids)
      else Inl ValueError)"

text \<open>\<^verbatim>\<open>arr[a:b]\<close> for \<open>a \<le> b\<close>; a slice is clipped to the array, it never raises.\<close>

definition np_slice :: "'a list \<Rightarrow> nat \<Rightarrow> nat \<Rightarrow> 'a list" where
  "np_slice arr a b = take (b - a) (drop a arr)"

text \<open>
  \<^verbatim>\<open>np.asarray(action_list, dtype=np.int32)\<close> on a list of Python integers, as the
  NumPy releases that still provide \<^verbatim>\<open>np.bool\<close> do it: the integer goes through a
  C \<^verbatim>\<open>long\<close> (64 bits), which overflows with an exception, and is then cast to 32
  bits, which wraps.
\<close>

definition np_asarray_int32 :: "int list \<Rightarrow> error + int32 list" where
  "np_asarray_int32 xs =
     (if list_ex (\<lambda>x. x < - (2 ^ 63) \<or> 2 ^ 63 \<le> x) xs then Inl OverflowError
      else Inr (map word_of_int xs))"

text \<open>\<^verbatim>\<open>np.expand_dims(a, 1)\<close>: every sub-array along axis 0 is wrapped in a new axis.\<close>

definition np_expand_dims_1 :: "'a list \<Rightarrow> 'a list list" where
  "np_expand_dims_1 a = map (\<lambda>x. [x]) a"

definition tile_axis :: "nat \<Rightarrow> 'a list \<Rightarrow> 'a list" where
  "tile_axis r xs = concat (replicate r xs)"

text \<open>\<^verbatim>\<open>np.tile(a, reps)\<close> for a four-dimensional array and four repetition counts.\<close>

definition np_tile4 ::
  "'a list list list list \<Rightarrow> nat \<times> nat \<times> nat \<times> nat \<Rightarrow> 'a list list list list" where
  "np_tile4 a reps =
     (case reps of (r0, r1, r2, r3) \<Rightarrow>
        tile_axis r0
          (map (\<lambda>b. tile_axis r1
             (map (\<lambda>c. tile_axis r2 (map (tile_axis r3) c)) b)) a))"

text \<open>
  \<^verbatim>\<open>view.shape[1]\<close> and \<^verbatim>\<open>view.shape[2]\<close>.  A batch of no agents does not record
  its trailing sizes in this representation; they are read as 0, and nothing depends
  on them, since the tiled and the concatenated arrays are then empty along axis 0.
\<close>

definition np_shape1 :: "'a list list \<Rightarrow> nat" where
  "np_shape1 v = (case v of [] \<Rightarrow> 0 | a # _ \<Rightarrow> length a)"

definition np_shape2 :: "'a list list list \<Rightarrow> nat" where
  "np_shape2 v = (case v of [] \<Rightarrow> 0 | a # _ \<Rightarrow> np_shape1 a)"

text \<open>
  \<^verbatim>\<open>np.concatenate([a, b], axis=-1)\<close> for four-dimensional arrays: the sizes of the
  first three axes must agree.
\<close>

definition np_concatenate_last ::
  "'a list list list list \<Rightarrow> 'a list list list list \<Rightarrow> error + 'a list list list list" where
  "np_concatenate_last a b =
     (if list_all2 (list_all2 (\<lambda>r s. length r = length s)) a b
      then Inr (map2 (map2 (map2 (@))) a b)
      else Inl ValueError)"

text \<open>\<^verbatim>\<open>np.zeros\<close> of a three-dimensional shape.\<close>

fun np_zeros3 :: "nat list \<Rightarrow> obs" where
  "np_zeros3 [h, w, c] = replicate h (replicate w (replicate c 0))"
| "np_zeros3 _ = []"

text \<open>
  A dictionary built by a comprehension or from pairs: entries are stored in order, a
  later entry for the same key replaces the earlier one.
\<close>

definition py_dict :: "('k \<times> 'v) list \<Rightarrow> ('k \<rightharpoonup> 'v)" where
  "py_dict kvs = foldl (\<lambda>m (k, v). m(k \<mapsto> v)) Map.empty kvs"

text \<open>\<^verbatim>\<open>{k: v for k, v in pairs if k in ret}\<close>\<close>

definition dict_comp :: "'k set \<Rightarrow> ('k \<times> 'v) list \<Rightarrow> ('k \<rightharpoonup> 'v)" where
  "dict_comp ret kvs = py_dict (filter (\<lambda>(k, v). k \<in> ret) kvs)"

text \<open>The decimal digits of a natural number, as an f-string prints it.\<close>

fun string_of_nat :: "nat \<Rightarrow> string" where
  "string_of_nat n =
     (if n < 10 then [char_of (48 + n)]
      else string_of_nat (n div 10) @ [char_of (48 + n mod 10)])"

declare string_of_nat.simps [simp del]

section \<open>The simulation engine\<close>

text \<open>
  The engine (\<^verbatim>\<open>magent.GridWorld\<close>) is an external collaborator.  It is a parameter of
  the model: a state of an arbitrary type \<open>'e\<close> and the calls the adapter makes on it.
  The control calls return the new engine state; the queries only read it.
  \<^verbatim>\<open>generate_map\<close> is the hook that the concrete environments define; it runs on the
  engine as well.
\<close>

record 'e engine =
  env_reset :: "'e \<Rightarrow> 'e"
  env_step :: "'e \<Rightarrow> bool \<times> 'e"
  env_clear_dead :: "'e \<Rightarrow> 'e"
  env_set_action :: "handle \<Rightarrow> int32 list \<Rightarrow> 'e \<Rightarrow> 'e"
  env_get_num :: "'e \<Rightarrow> handle \<Rightarrow> nat"
  env_get_action_space :: "'e \<Rightarrow> handle \<Rightarrow> nat list"
  env_get_view_space :: "'e \<Rightarrow> handle \<Rightarrow> nat list"
  env_get_feature_space :: "'e \<Rightarrow> handle \<Rightarrow> nat list"
  env_get_agent_id :: "'e \<Rightarrow> handle \<Rightarrow> int list"
  env_get_observation :: "'e \<Rightarrow> handle \<Rightarrow> real list list list list \<times> real list list"
  env_get_reward :: "'e \<Rightarrow> handle \<Rightarrow> real list"
  env_get_alive :: "'e \<Rightarrow> handle \<Rightarrow> bool list"
  generate_map :: "'e \<Rightarrow> 'e"

section \<open>The adapter object\<close>

text \<open>
  The attributes of \<^verbatim>\<open>magent_parallel_env\<close>.  A leading underscore of the source is
  written \<open>p_\<close>.  \<^verbatim>\<open>num_agents\<close> and \<^verbatim>\<open>all_dones\<close> do not exist before the first
  \<^verbatim>\<open>reset\<close>: they are \<open>None\<close> until then.
\<close>

record 'e magent_parallel_env =
  map_size :: int
  max_frames :: int
  env :: 'e
  handles :: "handle list"
  team_sizes :: "nat list"
  agents :: "agent_id list"
  possible_agents :: "agent_id list"
  max_num_agents :: nat
  action_spaces :: "agent_id \<rightharpoonup> nat"
  observation_spaces :: "agent_id \<rightharpoonup> nat list"
  p_zero_obs :: "agent_id \<rightharpoonup> obs"
  frames :: int
  num_agents :: "nat option"
  all_dones :: "(agent_id \<rightharpoonup> bool) option"

subsection \<open>Construction\<close>

text \<open>
  \<^verbatim>\<open>[f"{names[j]}_{i}" for j in range(len(team_sizes)) for i in range(team_sizes[j])]\<close>:
  \<^verbatim>\<open>names[j]\<close> is read once for every agent of team \<open>j\<close>, so a missing name raises
  only for a team that has an agent.
\<close>

definition agent_names :: "string list \<Rightarrow> nat list \<Rightarrow> error + agent_id list" where
  "agent_names names tsizes =
     (if list_ex (\<lambda>j. 0 < tsizes ! j \<and> length names \<le> j) [0..<length tsizes]
      then Inl IndexError
      else Inr (concat (map (\<lambda>j. map (\<lambda>i. names ! j @ ''_'' @ string_of_nat i)
                                   [0..<tsizes ! j])
                            [0..<length tsizes])))"

text \<open>\<^verbatim>\<open>[f(j) for j in range(len(team_sizes)) for i in range(team_sizes[j])]\<close>\<close>

definition per_agent :: "nat list \<Rightarrow> (nat \<Rightarrow> 'a) \<Rightarrow> 'a list" where
  "per_agent tsizes f = concat (map (\<lambda>j. replicate (tsizes ! j) (f j)) [0..<length tsizes])"

definition p_calc_obs_shapes :: "'e engine \<Rightarrow> 'e \<Rightarrow> handle list \<Rightarrow> error + nat list list" where
  "p_calc_obs_shapes eng e hs =
     (let view_spaces = map (env_get_view_space eng e) hs;
          feature_spaces = map (env_get_feature_space eng e) hs
      in if \<not> list_all (\<lambda>tup. length tup = 3) view_spaces then Inl AssertionError
         else if \<not> list_all (\<lambda>tup. length tup = 1) feature_spaces then Inl AssertionError
         else Inr (map2 (\<lambda>view_space feature_space.
                      take 2 view_space @ [view_space ! 2 + feature_space ! 0])
                    view_spaces feature_spaces))"

definition init ::
  "'e engine \<Rightarrow> 'e \<Rightarrow> handle list \<Rightarrow> string list \<Rightarrow> int \<Rightarrow> int \<Rightarrow>
     error + 'e magent_parallel_env" where
  "init eng env0 active_handles names msize mframes =
     (let e1 = generate_map eng (env_reset eng env0);
          tsizes = map (env_get_num eng e1) active_handles
      in case agent_names names tsizes of
           Inl err \<Rightarrow> Inl err
         | Inr ags \<Rightarrow>
             (if list_ex (\<lambda>h. env_get_action_space eng e1 h = []) active_handles
              then Inl IndexError
              else
                (let num_actions = map (\<lambda>h. hd (env_get_action_space eng e1 h)) active_handles;
                     action_spaces_list = per_agent tsizes (\<lambda>j. num_actions ! j)
                 in (case p_calc_obs_shapes eng e1 active_handles of
                       Inl err \<Rightarrow> Inl err
                     | Inr team_obs_shapes \<Rightarrow>
                         (let observation_space_list =
                                per_agent tsizes (\<lambda>j. team_obs_shapes ! j);
                              ospaces = py_dict (zip ags observation_space_list)
                          in Inr \<lparr> map_size = msize, max_frames = mframes, env = e1,
                                   handles = active_handles, team_sizes = tsizes,
                                   agents = ags, possible_agents = ags,
                                   max_num_agents = sum_list tsizes,
                                   action_spaces = py_dict (zip ags action_spaces_list),
                                   observation_spaces = ospaces,
                                   p_zero_obs = (\<lambda>agent. map_option np_zeros3 (ospaces agent)),
                                   frames = 0, num_agents = None, all_dones = None \<rparr>)))))"

subsection \<open>Observations, rewards and done flags\<close>

text \<open>Lines 87 to 89: the feature vector of every agent is tiled over its view.\<close>

definition fin_obs ::
  "real list list list list \<Rightarrow> real list list \<Rightarrow> error + obs list" where
  "fin_obs view features =
     (let feat_reshape = np_expand_dims_1 (np_expand_dims_1 features);
          feat_img = np_tile4 feat_reshape (1, np_shape1 view, np_shape2 view, 1)
      in np_concatenate_last view feat_img)"

fun observe_handles ::
  "'e engine \<Rightarrow> 'e \<Rightarrow> handle list \<Rightarrow> obs option list \<Rightarrow> error + obs option list" where
  "observe_handles eng e [] observes = Inr observes"
| "observe_handles eng e (h # hs) observes =
     (let ids = env_get_agent_id eng e h;
          (view, features) = env_get_observation eng e h
      in case fin_obs view features of
           Inl err \<Rightarrow> Inl err
         | Inr fo \<Rightarrow>
             (case setitems observes (zip ids (map Some fo)) of
                Inl err \<Rightarrow> Inl err
              | Inr observes' \<Rightarrow> observe_handles eng e hs observes'))"

text \<open>
  The comprehension of line 94; \<^verbatim>\<open>self._zero_obs[agent]\<close> is looked up only for a
  returned agent that has no observation.
\<close>

fun obs_dict ::
  "(agent_id \<rightharpoonup> obs) \<Rightarrow> agent_id set \<Rightarrow> (agent_id \<times> obs option) list \<Rightarrow>
     (agent_id \<rightharpoonup> obs) \<Rightarrow> error + (agent_id \<rightharpoonup> obs)" where
  "obs_dict z ret [] d = Inr d"
| "obs_dict z ret ((agent, ob) # rest) d =
     (if agent \<in> ret then
        (case ob of
           Some x \<Rightarrow> obs_dict z ret rest (d(agent \<mapsto> x))
         | None \<Rightarrow>
             (case z agent of
                None \<Rightarrow> Inl KeyError
              | Some zo \<Rightarrow> obs_dict z ret rest (d(agent \<mapsto> zo))))
      else obs_dict z ret rest d)"

definition p_observe_all ::
  "'e engine \<Rightarrow> 'e magent_parallel_env \<Rightarrow> error + (agent_id \<rightharpoonup> obs)" where
  "p_observe_all eng s =
     (case observe_handles eng (env s) (handles s) (replicate (max_num_agents s) None) of
        Inl err \<Rightarrow> Inl err
      | Inr observes \<Rightarrow>
          obs_dict (p_zero_obs s) (set (agents s)) (zip (possible_agents s) observes) Map.empty)"

fun reward_handles :: "'e engine \<Rightarrow> 'e \<Rightarrow> handle list \<Rightarrow> real list \<Rightarrow> error + real list" where
  "reward_handles eng e [] rewards = Inr rewards"
| "reward_handles eng e (h # hs) rewards =
     (let ids = env_get_agent_id eng e h
      in case np_setitem rewards ids (env_get_reward eng e h) of
           Inl err \<Rightarrow> Inl err
         | Inr rewards' \<Rightarrow> reward_handles eng e hs rewards')"

definition p_all_rewards ::
  "'e engine \<Rightarrow> 'e magent_parallel_env \<Rightarrow> error + (agent_id \<rightharpoonup> real)" where
  "p_all_rewards eng s =
     (case reward_handles eng (env s) (handles s) (replicate (max_num_agents s) 0) of
        Inl err \<Rightarrow> Inl err
      | Inr rewards \<Rightarrow> Inr (dict_comp (set (agents s)) (zip (possible_agents s) rewards)))"

fun dones_handles :: "'e engine \<Rightarrow> 'e \<Rightarrow> handle list \<Rightarrow> bool list \<Rightarrow> error + bool list" where
  "dones_handles eng e [] dones = Inr dones"
| "dones_handles eng e (h # hs) dones =
     (let ids = env_get_agent_id eng e h
      in case np_setitem dones ids (map Not (env_get_alive eng e h)) of
           Inl err \<Rightarrow> Inl err
         | Inr dones' \<Rightarrow> dones_handles eng e hs dones')"

definition p_all_dones ::
  "'e engine \<Rightarrow> 'e magent_parallel_env \<Rightarrow> bool \<Rightarrow> error + (agent_id \<rightharpoonup> bool)" where
  "p_all_dones eng s step_done =
     (case (if \<not> step_done
            then dones_handles eng (env s) (handles s) (replicate (max_num_agents s) True)
            else Inr (replicate (max_num_agents s) True)) of
        Inl err \<Rightarrow> Inl err
      | Inr dones \<Rightarrow> Inr (dict_comp (set (agents s)) (zip (possible_agents s) dones)))"

subsection \<open>reset and step\<close>

definition reset ::
  "'e engine \<Rightarrow> 'e magent_parallel_env \<Rightarrow>
     (error + (agent_id \<rightharpoonup> obs)) \<times> 'e magent_parallel_env" where
  "reset eng s =
     (let s1 = s\<lparr> num_agents := Some (length (possible_agents s)),
                  agents := possible_agents s,
                  env := env_reset eng (env s),
                  frames := 0,
                  all_dones := Some (py_dict (map (\<lambda>agent. (agent, False)) (possible_agents s))) \<rparr>;
          s2 = s1\<lparr> env := generate_map eng (env s1) \<rparr>
      in (p_observe_all eng s2, s2))"

text \<open>
  Lines 117 to 119: \<^verbatim>\<open>action_list[i] = all_actions[agent]\<close> for the agents that the
  action dictionary holds.
\<close>

fun fill_actions ::
  "(agent_id \<rightharpoonup> int) \<Rightarrow> (nat \<times> agent_id) list \<Rightarrow> int list \<Rightarrow> error + int list" where
  "fill_actions all_actions [] action_list = Inr action_list"
| "fill_actions all_actions ((i, agent) # rest) action_list =
     (case all_actions agent of
        None \<Rightarrow> fill_actions all_actions rest action_list
      | Some a \<Rightarrow>
          if i < length action_list
          then fill_actions all_actions rest (action_list[i := a])
          else Inl IndexError)"

text \<open>
  Lines 121 to 125: the loop over \<^verbatim>\<open>range(len(self.handles))\<close>, with the running
  \<^verbatim>\<open>start_point\<close>.
\<close>

fun set_actions ::
  "'e engine \<Rightarrow> handle list \<Rightarrow> nat list \<Rightarrow> int32 list \<Rightarrow> nat list \<Rightarrow> nat \<Rightarrow> 'e \<Rightarrow>
     (error + nat) \<times> 'e" where
  "set_actions eng hs tsizes arr [] start_point e = (Inr start_point, e)"
| "set_actions eng hs tsizes arr (i # is) start_point e =
     (if length tsizes \<le> i then (Inl IndexError, e)
      else
        let size = tsizes ! i
        in set_actions eng hs tsizes arr is (start_point + size)
             (env_set_action eng (hs ! i) (np_slice arr start_point (start_point + size)) e))"

text \<open>
  Line 115: \<^verbatim>\<open>[agent for agent in self.agents if not self.all_dones[agent]]\<close>.  The
  attribute \<^verbatim>\<open>self.all_dones\<close> is read once for every live agent: before the first
  \<^verbatim>\<open>reset\<close> it does not exist, which raises for the first agent and goes unnoticed when
  there is no agent; an agent that the dictionary does not hold is a \<^verbatim>\<open>KeyError\<close>.
\<close>

fun live_agents :: "(agent_id \<rightharpoonup> bool) option \<Rightarrow> agent_id list \<Rightarrow> error + agent_id list" where
  "live_agents dones_attr [] = Inr []"
| "live_agents None (agent # rest) = Inl AttributeError"
| "live_agents (Some ad) (agent # rest) =
     (case ad agent of
        None \<Rightarrow> Inl KeyError
      | Some flag \<Rightarrow>
          (case live_agents (Some ad) rest of
             Inl err \<Rightarrow> Inl err
           | Inr kept \<Rightarrow> Inr (if \<not> flag then agent # kept else kept)))"

text \<open>
  Lines 114 to 125 of \<^verbatim>\<open>step\<close>: the done agents leave \<^verbatim>\<open>self.agents\<close>, the engine
  clears its dead agents, the action dictionary becomes the flat array, and every
  handle is given its slice.
\<close>

definition send_actions ::
  "'e engine \<Rightarrow> 'e magent_parallel_env \<Rightarrow> (agent_id \<rightharpoonup> int) \<Rightarrow>
     (error + unit) \<times> 'e magent_parallel_env" where
  "send_actions eng s all_actions =
     (let action_list0 = replicate (max_num_agents s) 0
      in case live_agents (all_dones s) (agents s) of
           Inl err \<Rightarrow> (Inl err, s)
         | Inr kept \<Rightarrow>
             (let s1 = s\<lparr> agents := kept \<rparr>;
                  s2 = s1\<lparr> env := env_clear_dead eng (env s1) \<rparr>
              in (case fill_actions all_actions (enumerate 0 (possible_agents s2))
                         action_list0 of
                    Inl err \<Rightarrow> (Inl err, s2)
                  | Inr action_list \<Rightarrow>
                      (case np_asarray_int32 action_list of
                         Inl err \<Rightarrow> (Inl err, s2)
                       | Inr arr \<Rightarrow>
                           (case set_actions eng (handles s2) (team_sizes s2) arr
                                   [0..<length (handles s2)] 0 (env s2) of
                              (Inl err, e3) \<Rightarrow> (Inl err, s2\<lparr> env := e3 \<rparr>)
                            | (Inr start_point, e3) \<Rightarrow> (Inr (), s2\<lparr> env := e3 \<rparr>))))))"

type_synonym step_result =
  "(agent_id \<rightharpoonup> obs) \<times> (agent_id \<rightharpoonup> real) \<times> (agent_id \<rightharpoonup> bool) \<times> (agent_id \<rightharpoonup> unit)"

text \<open>
  Lines 127 to 137.  The object that \<^verbatim>\<open>step\<close> leaves behind is returned as well; when
  one of the three collecting methods raises, \<^verbatim>\<open>self.all_dones\<close> keeps its old value.
\<close>

definition step ::
  "'e engine \<Rightarrow> 'e magent_parallel_env \<Rightarrow> (agent_id \<rightharpoonup> int) \<Rightarrow>
     (error + step_result) \<times> 'e magent_parallel_env" where
  "step eng s all_actions =
     (case send_actions eng s all_actions of
        (Inl err, s2) \<Rightarrow> (Inl err, s2)
      | (Inr u, s2) \<Rightarrow>
          (let s3 = s2\<lparr> frames := frames s2 + 1 \<rparr>;
               (engine_done, e4) = env_step eng (env s3);
               s4 = s3\<lparr> env := e4 \<rparr>;
               done = (engine_done \<or> max_frames s4 \<le> frames s4);
               all_infos = py_dict (map (\<lambda>agent. (agent, ())) (agents s4))
           in (case p_all_dones eng s4 done of
                 Inl err \<Rightarrow> (Inl err, s4)
               | Inr dones \<Rightarrow>
                   (case p_all_rewards eng s4 of
                      Inl err \<Rightarrow> (Inl err, s4)
                    | Inr rewards \<Rightarrow>
                        (case p_observe_all eng s4 of
                           Inl err \<Rightarrow> (Inl err, s4)
                         | Inr observes \<Rightarrow>
                             (Inr (observes, rewards, dones, all_infos),
                              s4\<lparr> all_dones := Some dones \<rparr>))))))"

section \<open>Reachable objects and the vocabulary of the properties\<close>

text \<open>
  The objects a program can hold: the constructor returned it, or it is what a call of
  \<^verbatim>\<open>reset\<close> or \<^verbatim>\<open>step\<close> (returning or raising) left of such an object.
\<close>

inductive reachable :: "'e engine \<Rightarrow> 'e magent_parallel_env \<Rightarrow> bool" for eng where
  reachable_init:
    "init eng env0 active_handles names msize mframes = Inr s \<Longrightarrow> reachable eng s"
| reachable_reset: "reachable eng s \<Longrightarrow> reachable eng (snd (reset eng s))"
| reachable_step: "reachable eng s \<Longrightarrow> reachable eng (snd (step eng s all_actions))"

text \<open>What the constructor establishes and every method keeps.\<close>

definition env_inv :: "'e magent_parallel_env \<Rightarrow> bool" where
  "env_inv s \<longleftrightarrow>
     length (team_sizes s) = length (handles s) \<and>
     max_num_agents s = sum_list (team_sizes s) \<and>
     length (possible_agents s) = max_num_agents s \<and>
     set (agents s) \<subseteq> set (possible_agents s) \<and>
     (\<forall>ad. all_dones s = Some ad \<longrightarrow> set (agents s) \<subseteq> dom ad) \<and>
     dom (observation_spaces s) = set (possible_agents s) \<and>
     (\<forall>shape \<in> ran (observation_spaces s). length shape = 3) \<and>
     p_zero_obs s = (\<lambda>agent. map_option np_zeros3 (observation_spaces s agent))"

text \<open>
  The engine reports slot \<open>j\<close> of an array of length \<open>n\<close>: one of the handles lists an
  id that Python's indexing resolves to \<open>j\<close>.
\<close>

definition reported :: "'e engine \<Rightarrow> 'e \<Rightarrow> handle list \<Rightarrow> nat \<Rightarrow> nat \<Rightarrow> bool" where
  "reported eng e hs n j =
     list_ex (\<lambda>h. list_ex (\<lambda>i. py_index n i = Some j) (env_get_agent_id eng e h)) hs"

text \<open>
  The engine id of an agent is its position in \<^verbatim>\<open>possible_agents\<close>.  The agent is
  reported when the engine reports one of its positions.
\<close>

definition agent_reported :: "'e engine \<Rightarrow> 'e magent_parallel_env \<Rightarrow> agent_id \<Rightarrow> bool" where
  "agent_reported eng s agent =
     list_ex (\<lambda>j. possible_agents s ! j = agent \<and>
                  reported eng (env s) (handles s) (max_num_agents s) j)
       [0..<length (possible_agents s)]"

text \<open>
  The calls of \<^verbatim>\<open>set_action\<close> as the specification describes them: handle \<open>i\<close> gets the
  slice that starts at the sum of the team sizes before it and has the length of its
  team.
\<close>

definition action_calls :: "handle list \<Rightarrow> nat list \<Rightarrow> 'a list \<Rightarrow> (handle \<times> 'a list) list" where
  "action_calls hs tsizes arr =
     map (\<lambda>i. (hs ! i, take (tsizes ! i) (drop (sum_list (take i tsizes)) arr)))
       [0..<length hs]"

text \<open>The flat action list as the specification describes it: 0 where no action is supplied.\<close>

definition action_of :: "(agent_id \<rightharpoonup> int) \<Rightarrow> agent_id \<Rightarrow> int" where
  "action_of all_actions agent = (case all_actions agent of None \<Rightarrow> 0 | Some a \<Rightarrow> a)"

text \<open>An observation of the given three-dimensional shape.\<close>

definition obs_has_shape :: "nat list \<Rightarrow> 'a list list list \<Rightarrow> bool" where
  "obs_has_shape shape ob =
     (case shape of
        [h, w, c] \<Rightarrow>
          length ob = h \<and> list_all (\<lambda>row. length row = w \<and> list_all (\<lambda>px. length px = c) row) ob
      | _ \<Rightarrow> False)"

text \<open>
  A call that builds observations: \<^verbatim>\<open>reset\<close> or \<^verbatim>\<open>step\<close> on the object \<open>s\<close>
  returns the observation dictionary \<open>d\<close> and leaves the object \<open>s'\<close>.
\<close>

inductive observation_call ::
  "'e engine \<Rightarrow> 'e magent_parallel_env \<Rightarrow> (agent_id \<rightharpoonup> obs) \<Rightarrow> 'e magent_parallel_env \<Rightarrow> bool"
  for eng where
  by_reset: "reset eng s = (Inr d, s') \<Longrightarrow> observation_call eng s d s'"
| by_step:
    "step eng s all_actions = (Inr (d, rewards, dones, infos), s') \<Longrightarrow>
       observation_call eng s d s'"

text \<open>
  An agent alive in the engine: the engine lists position \<open>i\<close> as the \<open>k\<close>-th agent of
  the \<open>j\<close>-th handle, and the batch of that handle has a row \<open>k\<close>.  \<open>rows_for\<close> collects
  all such rows for a position, over the handles in their order.
\<close>

definition alive_at :: "'e engine \<Rightarrow> 'e magent_parallel_env \<Rightarrow> nat \<Rightarrow> nat \<Rightarrow> nat \<Rightarrow> bool" where
  "alive_at eng s j k i \<longleftrightarrow>
     j < length (handles s) \<and>
     k < length (env_get_agent_id eng (env s) (handles s ! j)) \<and>
     k < length (fst (env_get_observation eng (env s) (handles s ! j))) \<and>
     py_index (max_num_agents s) (env_get_agent_id eng (env s) (handles s ! j) ! k) = Some i"

definition batch_rows :: "'e engine \<Rightarrow> 'e magent_parallel_env \<Rightarrow> (nat \<times> nat) list" where
  "batch_rows eng s =
     concat (map (\<lambda>j. map (\<lambda>k. (j, k))
                         [0..<length (env_get_agent_id eng (env s) (handles s ! j))])
               [0..<length (handles s)])"

definition rows_for :: "'e engine \<Rightarrow> 'e magent_parallel_env \<Rightarrow> nat \<Rightarrow> (nat \<times> nat) list" where
  "rows_for eng s i = filter (\<lambda>(j, k). alive_at eng s j k i) (batch_rows eng s)"

section \<open>A small engine\<close>

text \<open>
  A concrete engine on which the theorems are instantiated.  Its state is the log of the
  control calls it has received.  Team 0 has one agent and team 1 has two; the engine
  reports the ids 0 and 2 only, so the agent at position 1 is a dead agent.
\<close>

datatype engine_call = Reset | GenerateMap | ClearDead | SetAction handle "int32 list" | Step

definition log_engine :: "engine_call list engine" where
  "log_engine =
     \<lparr> env_reset = (\<lambda>e. e @ [Reset]),
       env_step = (\<lambda>e. (False, e @ [Step])),
       env_clear_dead = (\<lambda>e. e @ [ClearDead]),
       env_set_action = (\<lambda>h a e. e @ [SetAction h a]),
       env_get_num = (\<lambda>e h. if h = 0 then 1 else 2),
       env_get_action_space = (\<lambda>e h. [5]),
       env_get_view_space = (\<lambda>e h. [1, 1, 2]),
       env_get_feature_space = (\<lambda>e h. [1]),
       env_get_agent_id = (\<lambda>e h. if h = 0 then [0] else [2]),
       env_get_observation =
         (\<lambda>e h. if h = 0 then ([[[[1, 2]]]], [[1]]) else ([[[[0, 1]]]], [[2]])),
       env_get_reward = (\<lambda>e h. if h = 0 then [1] else [2]),
       env_get_alive = (\<lambda>e h. [True]),
       generate_map = (\<lambda>e. e @ [GenerateMap]) \<rparr>"

text \<open>The object after construction with the given frame budget, and after a reset.\<close>

definition log_env0 :: "int \<Rightarrow> engine_call list magent_parallel_env" where
  "log_env0 mframes = projr (init log_engine [] [0, 1] [''red'', ''blue''] 45 mframes)"

definition log_env1 :: "int \<Rightarrow> engine_call list magent_parallel_env" where
  "log_env1 mframes = snd (reset log_engine (log_env0 mframes))"

text \<open>
  An action dictionary that names one agent and one key that is no agent, the first
  step with it, and the object it leaves.
\<close>

definition log_actions :: "agent_id \<rightharpoonup> int" where
  "log_actions = [''red_0'' \<mapsto> 3, ''ghost'' \<mapsto> 7]"

definition log_result1 :: "int \<Rightarrow> step_result" where
  "log_result1 mframes = projr (fst (step log_engine (log_env1 mframes) log_actions))"

definition log_env2 :: "int \<Rightarrow> engine_call list magent_parallel_env" where
  "log_env2 mframes = snd (step log_engine (log_env1 mframes) log_actions)"

text \<open>A second step, with an action for the agent that the first step marked done.\<close>

definition late_actions :: "agent_id \<rightharpoonup> int" where
  "late_actions = [''blue_0'' \<mapsto> 4]"

definition log_result2 :: "int \<Rightarrow> step_result" where
  "log_result2 mframes = projr (fst (step log_engine (log_env2 mframes) late_actions))"

definition log_env3 :: "int \<Rightarrow> engine_call list magent_parallel_env" where
  "log_env3 mframes = snd (step log_engine (log_env2 mframes) late_actions)"

text \<open>
  The same engine under two teams of one name: the constructor gives the agents at the
  positions 0 and 1 the same id.
\<close>

definition twin_env0 :: "engine_call list magent_parallel_env" where
  "twin_env0 = projr (init log_engine [] [0, 1] [''red'', ''red''] 45 10)"

definition twin_env1 :: "engine_call list magent_parallel_env" where
  "twin_env1 = snd (reset log_engine twin_env0)"

definition twin_obs :: "agent_id \<rightharpoonup> obs" where
  "twin_obs = projr (fst (reset log_engine twin_env0))"

section \<open>Dictionaries and item assignment\<close>

lemma dom_foldl_upd:
  "dom (foldl (\<lambda>m (k, v). m(k \<mapsto> v)) m kvs) = dom m \<union> fst ` set kvs"
  by (induction kvs arbitrary: m) (auto split: prod.splits)

lemma foldl_upd_Some:
  "foldl (\<lambda>m (k, v). m(k \<mapsto> v)) m kvs a = Some x \<Longrightarrow> m a = Some x \<or> (a, x) \<in> set kvs"
proof (induction kvs arbitrary: m)
  case Nil
  then show ?case by simp
next
  case (Cons p kvs)
  obtain k v where p: "p = (k, v)" by (cases p)
  from Cons.prems have "foldl (\<lambda>m (k, v). m(k \<mapsto> v)) (m(k \<mapsto> v)) kvs a = Some x"
    unfolding p by (simp only: foldl_Cons prod.case)
  from Cons.IH [OF this] show ?case
    by (auto simp: p split: if_splits)
qed

lemma dom_py_dict: "dom (py_dict kvs) = fst ` set kvs"
  by (simp add: py_dict_def dom_foldl_upd)

lemma py_dict_Some: "py_dict kvs a = Some x \<Longrightarrow> (a, x) \<in> set kvs"
  using foldl_upd_Some [of Map.empty kvs a x] by (simp add: py_dict_def)

lemma dom_dict_comp_zip:
  "length vs = length ks \<Longrightarrow> dom (dict_comp ret (zip ks vs)) = set ks \<inter> ret"
proof -
  assume len: "length vs = length ks"
  have "fst ` set (filter (\<lambda>(k, v). k \<in> ret) (zip ks vs)) = fst ` set (zip ks vs) \<inter> ret"
    by force
  moreover have "fst ` set (zip ks vs) = set ks"
    using len by (metis map_fst_zip set_map)
  ultimately show ?thesis by (simp add: dict_comp_def dom_py_dict)
qed

lemma dict_comp_zip_Some:
  assumes "dict_comp ret (zip ks vs) a = Some x"
  shows "a \<in> ret \<and> (\<exists>i. i < length ks \<and> i < length vs \<and> ks ! i = a \<and> vs ! i = x)"
proof -
  from assms have "(a, x) \<in> set (filter (\<lambda>(k, v). k \<in> ret) (zip ks vs))"
    unfolding dict_comp_def by (rule py_dict_Some)
  then have "a \<in> ret" and "(a, x) \<in> set (zip ks vs)" by auto
  then show ?thesis by (auto simp: in_set_zip)
qed

lemma py_index_less: "py_index n i = Some j \<Longrightarrow> j < n"
  by (auto simp: py_index_def split: if_splits)

lemma setitems_length: "setitems xs ps = Inr ys \<Longrightarrow> length ys = length xs"
proof (induction xs ps rule: setitems.induct)
  case (1 xs)
  then show ?case by simp
next
  case (2 xs i v rest)
  then show ?case by (auto split: option.splits)
qed

lemma setitems_nth:
  "setitems xs ps = Inr ys \<Longrightarrow> j < length xs \<Longrightarrow>
     ys ! j = xs ! j \<or> (\<exists>(i, v) \<in> set ps. py_index (length xs) i = Some j \<and> ys ! j = v)"
proof (induction xs ps rule: setitems.induct)
  case (1 xs)
  then show ?case by simp
next
  case (2 xs i v rest)
  from "2.prems" obtain k where k: "py_index (length xs) i = Some k"
    and rest: "setitems (xs[k := v]) rest = Inr ys"
    by (auto split: option.splits)
  from "2.IH" [OF k rest] "2.prems"(2)
  have "ys ! j = xs[k := v] ! j \<or>
        (\<exists>(i, v) \<in> set rest. py_index (length xs) i = Some j \<and> ys ! j = v)"
    by simp
  then show ?case
  proof
    assume eq: "ys ! j = xs[k := v] ! j"
    show ?thesis
    proof (cases "k = j")
      case True
      with eq k "2.prems"(2) show ?thesis by auto
    next
      case False
      with eq show ?thesis by simp
    qed
  next
    assume "\<exists>(i, v) \<in> set rest. py_index (length xs) i = Some j \<and> ys ! j = v"
    then show ?thesis by auto
  qed
qed

lemma setitems_untouched:
  assumes "setitems xs ps = Inr ys" and "j < length xs"
    and "\<forall>i \<in> fst ` set ps. py_index (length xs) i \<noteq> Some j"
  shows "ys ! j = xs ! j"
  using setitems_nth [OF assms(1,2)] assms(3) by force

lemma np_setitem_length: "np_setitem arr ids vals = Inr ys \<Longrightarrow> length ys = length arr"
  by (auto simp: np_setitem_def dest: setitems_length split: if_splits)

lemma np_setitem_untouched:
  assumes "np_setitem arr ids vals = Inr ys" and "j < length arr"
    and "\<forall>i \<in> set ids. py_index (length arr) i \<noteq> Some j"
  shows "ys ! j = arr ! j"
proof -
  from assms(1) obtain ps where ps: "setitems arr ps = Inr ys" and sub: "fst ` set ps \<subseteq> set ids"
  proof (cases "length vals = length ids")
    case True
    with assms(1) have "setitems arr (zip ids vals) = Inr ys"
      by (simp add: np_setitem_def)
    moreover have "fst ` set (zip ids vals) \<subseteq> set ids"
      by (auto dest: set_zip_leftD)
    ultimately show ?thesis by (rule that)
  next
    case False
    with assms(1) have "setitems arr (map (\<lambda>i. (i, hd vals)) ids) = Inr ys"
      by (simp add: np_setitem_def split: if_splits)
    moreover have "fst ` set (map (\<lambda>i. (i, hd vals)) ids) \<subseteq> set ids"
      by auto
    ultimately show ?thesis by (rule that)
  qed
  show ?thesis
    by (rule setitems_untouched [OF ps assms(2)]) (use sub assms(3) in blast)
qed

section \<open>The loops over the handles\<close>

lemma reported_Cons:
  "reported eng e (h # hs) n j \<longleftrightarrow>
     (\<exists>i \<in> set (env_get_agent_id eng e h). py_index n i = Some j) \<or> reported eng e hs n j"
  by (simp add: reported_def list_ex_iff)

lemma reward_handles_length:
  "reward_handles eng e hs rs = Inr rs' \<Longrightarrow> length rs' = length rs"
  by (induction hs arbitrary: rs) (auto split: sum.splits dest: np_setitem_length)

lemma reward_handles_untouched:
  "reward_handles eng e hs rs = Inr rs' \<Longrightarrow> j < length rs \<Longrightarrow>
     \<not> reported eng e hs (length rs) j \<Longrightarrow> rs' ! j = rs ! j"
proof (induction hs arbitrary: rs)
  case Nil
  then show ?case by simp
next
  case (Cons h hs)
  from Cons.prems(1) obtain rs1 where
    1: "np_setitem rs (env_get_agent_id eng e h) (env_get_reward eng e h) = Inr rs1"
    and 2: "reward_handles eng e hs rs1 = Inr rs'"
    by (auto split: sum.splits)
  have len: "length rs1 = length rs" by (rule np_setitem_length [OF 1])
  from Cons.prems(3) have nr: "\<forall>i \<in> set (env_get_agent_id eng e h). py_index (length rs) i \<noteq> Some j"
    and nr': "\<not> reported eng e hs (length rs1) j"
    by (auto simp: reported_Cons len)
  have "rs' ! j = rs1 ! j"
    using Cons.IH [OF 2 _ nr'] Cons.prems(2) len by simp
  also have "rs1 ! j = rs ! j"
    by (rule np_setitem_untouched [OF 1 Cons.prems(2) nr])
  finally show ?case .
qed

lemma dones_handles_length:
  "dones_handles eng e hs ds = Inr ds' \<Longrightarrow> length ds' = length ds"
  by (induction hs arbitrary: ds) (auto split: sum.splits dest: np_setitem_length)

lemma dones_handles_untouched:
  "dones_handles eng e hs ds = Inr ds' \<Longrightarrow> j < length ds \<Longrightarrow>
     \<not> reported eng e hs (length ds) j \<Longrightarrow> ds' ! j = ds ! j"
proof (induction hs arbitrary: ds)
  case Nil
  then show ?case by simp
next
  case (Cons h hs)
  from Cons.prems(1) obtain ds1 where
    1: "np_setitem ds (env_get_agent_id eng e h) (map Not (env_get_alive eng e h)) = Inr ds1"
    and 2: "dones_handles eng e hs ds1 = Inr ds'"
    by (auto split: sum.splits)
  have len: "length ds1 = length ds" by (rule np_setitem_length [OF 1])
  from Cons.prems(3) have nr: "\<forall>i \<in> set (env_get_agent_id eng e h). py_index (length ds) i \<noteq> Some j"
    and nr': "\<not> reported eng e hs (length ds1) j"
    by (auto simp: reported_Cons len)
  have "ds' ! j = ds1 ! j"
    using Cons.IH [OF 2 _ nr'] Cons.prems(2) len by simp
  also have "ds1 ! j = ds ! j"
    by (rule np_setitem_untouched [OF 1 Cons.prems(2) nr])
  finally show ?case .
qed

lemma observe_handles_length:
  "observe_handles eng e hs os = Inr os' \<Longrightarrow> length os' = length os"
  by (induction hs arbitrary: os)
     (auto split: sum.splits prod.splits dest: setitems_length)

lemma observe_handles_untouched:
  "observe_handles eng e hs os = Inr os' \<Longrightarrow> j < length os \<Longrightarrow>
     \<not> reported eng e hs (length os) j \<Longrightarrow> os' ! j = os ! j"
proof (induction hs arbitrary: os)
  case Nil
  then show ?case by simp
next
  case (Cons h hs)
  obtain view features where vf: "env_get_observation eng e h = (view, features)"
    by (cases "env_get_observation eng e h")
  from Cons.prems(1) vf obtain fo os1 where
    0: "fin_obs view features = Inr fo"
    and 1: "setitems os (zip (env_get_agent_id eng e h) (map Some fo)) = Inr os1"
    and 2: "observe_handles eng e hs os1 = Inr os'"
    by (auto split: sum.splits)
  have len: "length os1 = length os" by (rule setitems_length [OF 1])
  from Cons.prems(3) have nr: "\<forall>i \<in> set (env_get_agent_id eng e h). py_index (length os) i \<noteq> Some j"
    and nr': "\<not> reported eng e hs (length os1) j"
    by (auto simp: reported_Cons len)
  have "os' ! j = os1 ! j"
    using Cons.IH [OF 2 _ nr'] Cons.prems(2) len by simp
  also have "os1 ! j = os ! j"
    by (rule setitems_untouched [OF 1 Cons.prems(2)]) (use nr in \<open>auto dest: set_zip_leftD\<close>)
  finally show ?case .
qed

lemma obs_dict_Cons_cases:
  assumes "obs_dict z ret ((agent, ob) # rest) d = Inr d'"
  obtains (skip) "agent \<notin> ret" "obs_dict z ret rest d = Inr d'"
  | (some) x where "agent \<in> ret" "ob = Some x" "obs_dict z ret rest (d(agent \<mapsto> x)) = Inr d'"
  | (zero) zo where "agent \<in> ret" "ob = None" "z agent = Some zo"
      "obs_dict z ret rest (d(agent \<mapsto> zo)) = Inr d'"
  using assms by (simp split: if_splits option.splits)

lemma dom_obs_dict:
  "obs_dict z ret kvs d = Inr d' \<Longrightarrow> dom d' = dom d \<union> (fst ` set kvs \<inter> ret)"
proof (induction kvs arbitrary: d)
  case Nil
  then show ?case by simp
next
  case (Cons p kvs)
  obtain agent ob where p: "p = (agent, ob)" by (cases p)
  from Cons.prems [unfolded p] show ?case
  proof (cases rule: obs_dict_Cons_cases)
    case skip
    from Cons.IH [OF skip(2)] skip(1) show ?thesis by (simp add: p)
  next
    case (some x)
    from Cons.IH [OF some(3)] some(1) show ?thesis by (simp add: p del: fun_upd_apply)
  next
    case (zero zo)
    from Cons.IH [OF zero(4)] zero(1) show ?thesis by (simp add: p del: fun_upd_apply)
  qed
qed

lemma obs_dict_Some:
  "obs_dict z ret kvs d = Inr d' \<Longrightarrow> d' a = Some x \<Longrightarrow>
     d a = Some x \<or> (a, Some x) \<in> set kvs \<or> ((a, None) \<in> set kvs \<and> z a = Some x)"
proof (induction kvs arbitrary: d)
  case Nil
  then show ?case by simp
next
  case (Cons p kvs)
  obtain agent ob where p: "p = (agent, ob)" by (cases p)
  from Cons.prems(1) [unfolded p] show ?case
  proof (cases rule: obs_dict_Cons_cases)
    case skip
    from Cons.IH [OF skip(2) Cons.prems(2)] show ?thesis by auto
  next
    case (some y)
    from Cons.IH [OF some(3) Cons.prems(2)] some(2) show ?thesis
      by (auto simp: p split: if_splits)
  next
    case (zero zo)
    from Cons.IH [OF zero(4) Cons.prems(2)] zero(2,3) show ?thesis
      by (auto simp: p split: if_splits)
  qed
qed

section \<open>The action array and the calls of set_action\<close>

lemma fill_actions_enumerate:
  "k + length ps \<le> length al \<Longrightarrow>
     \<exists>al'. fill_actions acts (enumerate k ps) al = Inr al' \<and> length al' = length al \<and>
       (\<forall>i < length al. al' ! i =
          (if k \<le> i \<and> i < k + length ps
           then (case acts (ps ! (i - k)) of None \<Rightarrow> al ! i | Some a \<Rightarrow> a)
           else al ! i))"
proof (induction ps arbitrary: k al)
  case Nil
  then show ?case by simp
next
  case (Cons p ps)
  show ?case
  proof (cases "acts p")
    case None
    from Cons.prems have "Suc k + length ps \<le> length al" by simp
    from Cons.IH [OF this] obtain al' where
      1: "fill_actions acts (enumerate (Suc k) ps) al = Inr al'"
      and 2: "length al' = length al"
      and 3: "\<And>i. i < length al \<Longrightarrow> al' ! i =
          (if Suc k \<le> i \<and> i < Suc k + length ps
           then (case acts (ps ! (i - Suc k)) of None \<Rightarrow> al ! i | Some a \<Rightarrow> a)
           else al ! i)"
      by blast
    have "fill_actions acts (enumerate k (p # ps)) al = Inr al'"
      using None 1 by simp
    moreover have "al' ! i =
          (if k \<le> i \<and> i < k + length (p # ps)
           then (case acts ((p # ps) ! (i - k)) of None \<Rightarrow> al ! i | Some a \<Rightarrow> a)
           else al ! i)" if "i < length al" for i
    proof (cases "i = k")
      case True
      then show ?thesis using 3 [OF that] None by simp
    next
      case False
      then show ?thesis using 3 [OF that] by (auto simp: nth_Cons' Suc_diff_Suc
            intro!: arg_cong [where f = "\<lambda>j. case acts (ps ! j) of None \<Rightarrow> al ! i | Some a \<Rightarrow> a"])
    qed
    ultimately show ?thesis using 2 by blast
  next
    case (Some a)
    from Cons.prems have k: "k < length al" and "Suc k + length ps \<le> length (al[k := a])"
      by simp_all
    from Cons.IH [OF this(2)] obtain al' where
      1: "fill_actions acts (enumerate (Suc k) ps) (al[k := a]) = Inr al'"
      and 2: "length al' = length al"
      and 3: "\<And>i. i < length al \<Longrightarrow> al' ! i =
          (if Suc k \<le> i \<and> i < Suc k + length ps
           then (case acts (ps ! (i - Suc k)) of None \<Rightarrow> al[k := a] ! i | Some a \<Rightarrow> a)
           else al[k := a] ! i)"
      by auto
    have "fill_actions acts (enumerate k (p # ps)) al = Inr al'"
      using Some 1 k by simp
    moreover have "al' ! i =
          (if k \<le> i \<and> i < k + length (p # ps)
           then (case acts ((p # ps) ! (i - k)) of None \<Rightarrow> al ! i | Some a \<Rightarrow> a)
           else al ! i)" if "i < length al" for i
    proof (cases "i = k")
      case True
      then show ?thesis using 3 [OF that] Some k by simp
    next
      case False
      have "acts ((p # ps) ! (i - k)) = acts (ps ! (i - Suc k))" if "k \<le> i"
        using that False by (simp add: nth_Cons' Suc_diff_Suc)
      then show ?thesis using 3 [OF that] False by (auto split: option.splits)
    qed
    ultimately show ?thesis using 2 by blast
  qed
qed

lemma fill_actions_all:
  assumes "length ps = n"
  shows "fill_actions acts (enumerate 0 ps) (replicate n 0) = Inr (map (action_of acts) ps)"
proof -
  from assms have "0 + length ps \<le> length (replicate n (0::int))" by simp
  from fill_actions_enumerate [OF this, of acts] obtain al' where
    1: "fill_actions acts (enumerate 0 ps) (replicate n 0) = Inr al'"
    and 2: "length al' = n"
    and 3: "\<And>i. i < n \<Longrightarrow> al' ! i =
        (case acts (ps ! i) of None \<Rightarrow> replicate n 0 ! i | Some a \<Rightarrow> a)"
    using assms by auto
  have "al' = map (action_of acts) ps"
  proof (rule nth_equalityI)
    show "length al' = length (map (action_of acts) ps)" using 2 assms by simp
  next
    fix i assume "i < length al'"
    with 2 have i: "i < n" by simp
    with 3 [OF i] assms show "al' ! i = map (action_of acts) ps ! i"
      by (simp add: action_of_def split: option.splits)
  qed
  with 1 show ?thesis by simp
qed

lemma set_actions_upt:
  "n \<le> length tsizes \<Longrightarrow> k \<le> n \<Longrightarrow>
     set_actions eng hs tsizes arr [k..<n] (sum_list (take k tsizes)) e =
       (Inr (sum_list (take n tsizes)),
        foldl (\<lambda>e i. env_set_action eng (hs ! i)
                 (take (tsizes ! i) (drop (sum_list (take i tsizes)) arr)) e) e [k..<n])"
proof (induction "n - k" arbitrary: k e)
  case 0
  then show ?case by simp
next
  case (Suc d)
  then have k: "k < n" and kl: "k < length tsizes" by simp_all
  have upt: "[k..<n] = k # [Suc k..<n]" using k by (simp add: upt_conv_Cons)
  have sum: "sum_list (take (Suc k) tsizes) = sum_list (take k tsizes) + tsizes ! k"
    using kl by (simp add: take_Suc_conv_app_nth)
  from Suc have d: "d = n - Suc k" and "Suc k \<le> n" by simp_all
  from Suc.hyps(1) [OF d Suc.prems(1) this(2)] show ?case
    using kl by (simp add: upt sum np_slice_def Let_def)
qed

lemma set_actions_calls:
  assumes "length tsizes = length hs"
  shows "set_actions eng hs tsizes arr [0..<length hs] 0 e =
           (Inr (sum_list tsizes),
            foldl (\<lambda>e (h, a). env_set_action eng h a e) e (action_calls hs tsizes arr))"
proof -
  have "set_actions eng hs tsizes arr [0..<length hs] (sum_list (take 0 tsizes)) e =
       (Inr (sum_list (take (length hs) tsizes)),
        foldl (\<lambda>e i. env_set_action eng (hs ! i)
                 (take (tsizes ! i) (drop (sum_list (take i tsizes)) arr)) e) e [0..<length hs])"
    by (rule set_actions_upt) (simp_all add: assms)
  moreover have "foldl (\<lambda>e (h, a). env_set_action eng h a e) e (map f is) =
      foldl (\<lambda>e i. env_set_action eng (fst (f i)) (snd (f i)) e) e is" for f :: "nat \<Rightarrow> handle \<times> int32 list" and "is"
    by (induction "is" arbitrary: e) (simp_all add: case_prod_beta)
  ultimately show ?thesis
    using assms by (simp add: action_calls_def)
qed

lemma concat_slices_take:
  "n \<le> length tsizes \<Longrightarrow>
     concat (map (\<lambda>i. take (tsizes ! i) (drop (sum_list (take i tsizes)) arr)) [0..<n]) =
       take (sum_list (take n tsizes)) arr"
proof (induction n)
  case 0
  then show ?case by simp
next
  case (Suc n)
  then have "n < length tsizes" by simp
  then have "sum_list (take (Suc n) tsizes) = sum_list (take n tsizes) + tsizes ! n"
    by (simp add: take_Suc_conv_app_nth)
  with Suc show ?case by (simp add: take_add)
qed

lemma concat_action_calls:
  assumes "length tsizes = length hs" and "sum_list tsizes = length arr"
  shows "concat (map snd (action_calls hs tsizes arr)) = arr"
proof -
  have "map snd (action_calls hs tsizes arr) =
      map (\<lambda>i. take (tsizes ! i) (drop (sum_list (take i tsizes)) arr)) [0..<length tsizes]"
    by (simp add: action_calls_def assms(1) comp_def)
  then show ?thesis
    using concat_slices_take [of "length tsizes" tsizes arr] assms(2) by simp
qed

section \<open>The invariant\<close>

lemma sum_list_nth_upt: "sum_list (map ((!) xs) [0..<length xs]) = sum_list (xs :: nat list)"
  by (simp add: map_nth)

lemma length_agent_names:
  "agent_names names tsizes = Inr ags \<Longrightarrow> length ags = sum_list tsizes"
proof -
  assume "agent_names names tsizes = Inr ags"
  then have "ags = concat (map (\<lambda>j. map (\<lambda>i. names ! j @ ''_'' @ string_of_nat i)
                                   [0..<tsizes ! j]) [0..<length tsizes])"
    by (simp add: agent_names_def split: if_splits)
  then have "length ags = sum_list (map ((!) tsizes) [0..<length tsizes])"
    by (simp add: length_concat comp_def)
  then show ?thesis by (simp only: sum_list_nth_upt)
qed

lemma length_per_agent: "length (per_agent tsizes f) = sum_list tsizes"
proof -
  have "length (per_agent tsizes f) = sum_list (map ((!) tsizes) [0..<length tsizes])"
    by (simp add: per_agent_def length_concat comp_def)
  then show ?thesis by (simp only: sum_list_nth_upt)
qed

lemma set_per_agent: "x \<in> set (per_agent tsizes f) \<Longrightarrow> \<exists>j < length tsizes. x = f j"
  by (auto simp: per_agent_def)

lemma p_calc_obs_shapes_Inr:
  assumes "p_calc_obs_shapes eng e hs = Inr shapes"
  shows "length shapes = length hs"
    and "j < length hs \<Longrightarrow>
           shapes ! j = take 2 (env_get_view_space eng e (hs ! j)) @
             [env_get_view_space eng e (hs ! j) ! 2 + env_get_feature_space eng e (hs ! j) ! 0]"
    and "j < length hs \<Longrightarrow> length (env_get_view_space eng e (hs ! j)) = 3"
    and "j < length hs \<Longrightarrow> length (env_get_feature_space eng e (hs ! j)) = 1"
proof -
  from assms have
    v: "list_all (\<lambda>tup. length tup = 3) (map (env_get_view_space eng e) hs)"
    and f: "list_all (\<lambda>tup. length tup = 1) (map (env_get_feature_space eng e) hs)"
    and s: "shapes = map2 (\<lambda>view_space feature_space.
                      take 2 view_space @ [view_space ! 2 + feature_space ! 0])
                    (map (env_get_view_space eng e) hs) (map (env_get_feature_space eng e) hs)"
    by (auto simp: p_calc_obs_shapes_def Let_def split: if_splits)
  show "length shapes = length hs" by (simp add: s)
  show "shapes ! j = take 2 (env_get_view_space eng e (hs ! j)) @
             [env_get_view_space eng e (hs ! j) ! 2 + env_get_feature_space eng e (hs ! j) ! 0]"
    if "j < length hs" using that by (simp add: s)
  show "length (env_get_view_space eng e (hs ! j)) = 3" if "j < length hs"
    using v that by (simp add: list_all_length)
  show "length (env_get_feature_space eng e (hs ! j)) = 1" if "j < length hs"
    using f that by (simp add: list_all_length)
qed

lemma dom_py_dict_zip: "length vs = length ks \<Longrightarrow> dom (py_dict (zip ks vs)) = set ks"
  by (metis dom_py_dict map_fst_zip set_map)

lemma ran_py_dict_zip: "x \<in> ran (py_dict (zip ks vs)) \<Longrightarrow> x \<in> set vs"
  by (auto simp: ran_def dest!: py_dict_Some set_zip_rightD)

lemma init_inv:
  assumes "init eng env0 active_handles names msize mframes = Inr s"
  shows "env_inv s"
proof -
  define e1 where "e1 = generate_map eng (env_reset eng env0)"
  define tsizes where "tsizes = map (env_get_num eng e1) active_handles"
  from assms obtain ags shapes where
    ags: "agent_names names tsizes = Inr ags"
    and shapes: "p_calc_obs_shapes eng e1 active_handles = Inr shapes"
    and s: "s = \<lparr> map_size = msize, max_frames = mframes, env = e1,
               handles = active_handles, team_sizes = tsizes,
               agents = ags, possible_agents = ags,
               max_num_agents = sum_list tsizes,
               action_spaces = py_dict (zip ags (per_agent tsizes
                  (\<lambda>j. map (\<lambda>h. hd (env_get_action_space eng e1 h)) active_handles ! j))),
               observation_spaces = py_dict (zip ags (per_agent tsizes (\<lambda>j. shapes ! j))),
               p_zero_obs = (\<lambda>agent. map_option np_zeros3
                  (py_dict (zip ags (per_agent tsizes (\<lambda>j. shapes ! j))) agent)),
               frames = 0, num_agents = None, all_dones = None \<rparr>"
    unfolding init_def Let_def e1_def [symmetric] tsizes_def [symmetric]
    by (auto split: sum.splits if_splits)
  have len: "length ags = sum_list tsizes" by (rule length_agent_names [OF ags])
  have lt: "length tsizes = length active_handles" by (simp add: tsizes_def)
  have "length shape = 3" if "shape \<in> ran (py_dict (zip ags (per_agent tsizes (\<lambda>j. shapes ! j))))"
    for shape
  proof -
    from that have "shape \<in> set (per_agent tsizes (\<lambda>j. shapes ! j))" by (rule ran_py_dict_zip)
    then obtain j where j: "j < length tsizes" and sh: "shape = shapes ! j"
      by (auto dest: set_per_agent)
    from j lt have j': "j < length active_handles" by simp
    show ?thesis
      unfolding sh p_calc_obs_shapes_Inr(2) [OF shapes j']
      using p_calc_obs_shapes_Inr(3) [OF shapes j'] by simp
  qed
  then show ?thesis
    by (simp add: env_inv_def s len lt dom_py_dict_zip length_per_agent)
qed

lemma p_all_dones_dom:
  assumes "p_all_dones eng s d = Inr dones" and "length (possible_agents s) = max_num_agents s"
  shows "dom dones = set (possible_agents s) \<inter> set (agents s)"
proof -
  from assms(1) obtain ds where
    ds: "(if \<not> d then dones_handles eng (env s) (handles s) (replicate (max_num_agents s) True)
          else Inr (replicate (max_num_agents s) True)) = Inr ds"
    and dones: "dones = dict_comp (set (agents s)) (zip (possible_agents s) ds)"
    by (auto simp: p_all_dones_def split: sum.splits)
  from ds have "length ds = max_num_agents s"
    by (auto split: if_splits dest: dones_handles_length)
  with assms(2) show ?thesis by (simp add: dones dom_dict_comp_zip)
qed

lemma p_all_rewards_dom:
  assumes "p_all_rewards eng s = Inr rewards" and "length (possible_agents s) = max_num_agents s"
  shows "dom rewards = set (possible_agents s) \<inter> set (agents s)"
proof -
  from assms(1) obtain rs where
    rs: "reward_handles eng (env s) (handles s) (replicate (max_num_agents s) 0) = Inr rs"
    and rewards: "rewards = dict_comp (set (agents s)) (zip (possible_agents s) rs)"
    by (auto simp: p_all_rewards_def split: sum.splits)
  from rs have "length rs = max_num_agents s"
    by (auto dest: reward_handles_length)
  with assms(2) show ?thesis by (simp add: rewards dom_dict_comp_zip)
qed

lemma p_observe_all_dom:
  assumes "p_observe_all eng s = Inr observes" and "length (possible_agents s) = max_num_agents s"
  shows "dom observes = set (possible_agents s) \<inter> set (agents s)"
proof -
  from assms(1) obtain os where
    os: "observe_handles eng (env s) (handles s) (replicate (max_num_agents s) None) = Inr os"
    and d: "obs_dict (p_zero_obs s) (set (agents s)) (zip (possible_agents s) os) Map.empty
              = Inr observes"
    by (auto simp: p_observe_all_def split: sum.splits)
  from os have "length os = max_num_agents s"
    by (auto dest: observe_handles_length)
  with assms(2) have "fst ` set (zip (possible_agents s) os) = set (possible_agents s)"
    by (metis map_fst_zip set_map)
  with dom_obs_dict [OF d] show ?thesis by simp
qed

lemma reset_state:
  "snd (reset eng s) =
     s\<lparr> num_agents := Some (length (possible_agents s)),
        agents := possible_agents s,
        env := generate_map eng (env_reset eng (env s)),
        frames := 0,
        all_dones := Some (py_dict (map (\<lambda>agent. (agent, False)) (possible_agents s))) \<rparr>"
  by (simp add: reset_def Let_def)

lemma reset_result: "fst (reset eng s) = p_observe_all eng (snd (reset eng s))"
  by (simp add: reset_def Let_def)

lemma reset_inv: "env_inv s \<Longrightarrow> env_inv (snd (reset eng s))"
  by (simp add: reset_state env_inv_def dom_py_dict image_image)

lemma live_agents_subset: "live_agents dones_attr ags = Inr kept \<Longrightarrow> set kept \<subseteq> set ags"
proof (induction dones_attr ags arbitrary: kept rule: live_agents.induct)
  case (1 dones_attr)
  then show ?case by simp
next
  case (2 agent rest)
  then show ?case by simp
next
  case (3 ad agent rest)
  from "3.prems" obtain flag kept' where
    flag: "ad agent = Some flag" and rest: "live_agents (Some ad) rest = Inr kept'"
    and kept: "kept = (if \<not> flag then agent # kept' else kept')"
    by (auto split: option.splits sum.splits)
  from "3.IH" [OF flag rest] kept show ?case by auto
qed

lemma live_agents_Some:
  "live_agents (Some ad) ags = Inr kept \<Longrightarrow>
     kept = filter (\<lambda>agent. ad agent = Some False) ags"
proof (induction ags arbitrary: kept)
  case Nil
  then show ?case by simp
next
  case (Cons agent rest)
  from Cons.prems obtain flag kept' where
    flag: "ad agent = Some flag" and rest: "live_agents (Some ad) rest = Inr kept'"
    and kept: "kept = (if \<not> flag then agent # kept' else kept')"
    by (auto split: option.splits sum.splits)
  from Cons.IH [OF rest] flag kept show ?case by auto
qed

lemma send_actions_Inr:
  assumes "send_actions eng s acts = (Inr u, s2)" and "env_inv s"
  obtains kept arr where
    "live_agents (all_dones s) (agents s) = Inr kept"
    "np_asarray_int32 (map (action_of acts) (possible_agents s)) = Inr arr"
    "s2 = s\<lparr> agents := kept,
             env := foldl (\<lambda>e (h, a). env_set_action eng h a e) (env_clear_dead eng (env s))
                      (action_calls (handles s) (team_sizes s) arr) \<rparr>"
proof -
  from assms(2) have len: "length (possible_agents s) = max_num_agents s"
    and lt: "length (team_sizes s) = length (handles s)"
    by (simp_all add: env_inv_def)
  have fill: "fill_actions acts (enumerate 0 (possible_agents s)) (replicate (max_num_agents s) 0)
      = Inr (map (action_of acts) (possible_agents s))"
    by (rule fill_actions_all [OF len])
  from assms(1) obtain kept where kept: "live_agents (all_dones s) (agents s) = Inr kept"
    by (cases "live_agents (all_dones s) (agents s)") (simp_all add: send_actions_def)
  from assms(1) obtain arr where
    arr: "np_asarray_int32 (map (action_of acts) (possible_agents s)) = Inr arr"
    by (cases "np_asarray_int32 (map (action_of acts) (possible_agents s))")
       (simp_all add: send_actions_def kept fill Let_def)
  from assms(1) have
    "s2 = s\<lparr> agents := kept,
             env := foldl (\<lambda>e (h, a). env_set_action eng h a e) (env_clear_dead eng (env s))
                      (action_calls (handles s) (team_sizes s) arr) \<rparr>"
    by (simp add: send_actions_def kept fill arr Let_def set_actions_calls [OF lt])
  with kept arr show ?thesis by (rule that)
qed

lemma send_actions_Inr_Some:
  assumes "send_actions eng s acts = (Inr u, s2)" and "env_inv s" and "all_dones s = Some ad"
  obtains arr where
    "np_asarray_int32 (map (action_of acts) (possible_agents s)) = Inr arr"
    "s2 = s\<lparr> agents := filter (\<lambda>agent. ad agent = Some False) (agents s),
             env := foldl (\<lambda>e (h, a). env_set_action eng h a e) (env_clear_dead eng (env s))
                      (action_calls (handles s) (team_sizes s) arr) \<rparr>"
proof -
  from assms(1,2) obtain kept arr where
    kept: "live_agents (all_dones s) (agents s) = Inr kept"
    and arr: "np_asarray_int32 (map (action_of acts) (possible_agents s)) = Inr arr"
    and s2: "s2 = s\<lparr> agents := kept,
             env := foldl (\<lambda>e (h, a). env_set_action eng h a e) (env_clear_dead eng (env s))
                      (action_calls (handles s) (team_sizes s) arr) \<rparr>"
    by (rule send_actions_Inr)
  from kept have "kept = filter (\<lambda>agent. ad agent = Some False) (agents s)"
    unfolding assms(3) by (rule live_agents_Some)
  with arr s2 show ?thesis by (intro that [of arr]) simp_all
qed

lemma send_actions_state:
  obtains ags e where
    "snd (send_actions eng s acts) = s\<lparr> agents := ags, env := e \<rparr>"
    "set ags \<subseteq> set (agents s)"
proof (cases "live_agents (all_dones s) (agents s)")
  case (Inl err)
  then have "snd (send_actions eng s acts) = s\<lparr> agents := agents s, env := env s \<rparr>"
    by (simp add: send_actions_def)
  then show ?thesis by (rule that) simp
next
  case (Inr kept)
  have "\<exists>e. snd (send_actions eng s acts) = s\<lparr> agents := kept, env := e \<rparr>"
    using Inr
    by (simp add: send_actions_def Let_def split: sum.splits prod.splits) blast
  then obtain e where "snd (send_actions eng s acts) = s\<lparr> agents := kept, env := e \<rparr>" ..
  then show ?thesis by (rule that) (rule live_agents_subset [OF Inr])
qed

lemma send_actions_inv:
  assumes "env_inv s"
  shows "env_inv (snd (send_actions eng s acts))"
proof -
  obtain ags e where s2: "snd (send_actions eng s acts) = s\<lparr> agents := ags, env := e \<rparr>"
    and sub: "set ags \<subseteq> set (agents s)"
    by (rule send_actions_state)
  from assms sub have "set ags \<subseteq> set (possible_agents s)"
    and "\<forall>ad. all_dones s = Some ad \<longrightarrow> set ags \<subseteq> dom ad"
    unfolding env_inv_def by blast+
  with assms show ?thesis
    by (simp add: s2 env_inv_def)
qed

lemma step_unfold_Inl:
  "send_actions eng s acts = (Inl err, s2) \<Longrightarrow> step eng s acts = (Inl err, s2)"
  by (simp add: step_def)

lemma step_unfold_Inr:
  assumes "send_actions eng s acts = (Inr u, s2)"
    and "s4 = s2\<lparr> frames := frames s2 + 1, env := snd (env_step eng (env s2)) \<rparr>"
    and "d = (fst (env_step eng (env s2)) \<or> max_frames s2 \<le> frames s2 + 1)"
  shows "step eng s acts =
      (case p_all_dones eng s4 d of
         Inl err \<Rightarrow> (Inl err, s4)
       | Inr dones \<Rightarrow>
           (case p_all_rewards eng s4 of
              Inl err \<Rightarrow> (Inl err, s4)
            | Inr rewards \<Rightarrow>
                (case p_observe_all eng s4 of
                   Inl err \<Rightarrow> (Inl err, s4)
                 | Inr observes \<Rightarrow>
                     (Inr (observes, rewards, dones, py_dict (map (\<lambda>agent. (agent, ())) (agents s2))),
                      s4\<lparr> all_dones := Some dones \<rparr>))))"
  by (simp add: step_def assms Let_def case_prod_beta cong: sum.case_cong)

lemma step_Inr:
  assumes "fst (step eng s acts) = Inr (observes, rewards, dones, infos)"
  obtains s2 s4 where
    "send_actions eng s acts = (Inr (), s2)"
    "s4 = s2\<lparr> frames := frames s2 + 1, env := snd (env_step eng (env s2)) \<rparr>"
    "p_all_dones eng s4 (fst (env_step eng (env s2)) \<or> max_frames s2 \<le> frames s2 + 1) = Inr dones"
    "p_all_rewards eng s4 = Inr rewards"
    "p_observe_all eng s4 = Inr observes"
    "infos = py_dict (map (\<lambda>agent. (agent, ())) (agents s2))"
    "snd (step eng s acts) = s4\<lparr> all_dones := Some dones \<rparr>"
proof -
  obtain r s2 where sa: "send_actions eng s acts = (r, s2)"
    by (cases "send_actions eng s acts")
  with assms obtain u where r: "r = Inr u"
    by (cases r) (simp_all add: step_def)
  define s4 where "s4 = s2\<lparr> frames := frames s2 + 1, env := snd (env_step eng (env s2)) \<rparr>"
  define d where "d = (fst (env_step eng (env s2)) \<or> max_frames s2 \<le> frames s2 + 1)"
  note st = step_unfold_Inr [OF sa [unfolded r] s4_def d_def]
  obtain dn where dn: "p_all_dones eng s4 d = Inr dn"
    using assms by (cases "p_all_dones eng s4 d") (simp_all add: st)
  obtain rw where rw: "p_all_rewards eng s4 = Inr rw"
    using assms by (cases "p_all_rewards eng s4") (simp_all add: st dn)
  obtain ob where ob: "p_observe_all eng s4 = Inr ob"
    using assms by (cases "p_observe_all eng s4") (simp_all add: st dn rw)
  have res: "step eng s acts =
      (Inr (ob, rw, dn, py_dict (map (\<lambda>agent. (agent, ())) (agents s2))),
       s4\<lparr> all_dones := Some dn \<rparr>)"
    by (simp add: st dn rw ob)
  with assms have eqs: "ob = observes" "rw = rewards" "dn = dones"
    "infos = py_dict (map (\<lambda>agent. (agent, ())) (agents s2))"
    by simp_all
  have u: "r = Inr ()" by (simp add: r)
  show ?thesis
  proof (rule that [of s2 s4])
    show "send_actions eng s acts = (Inr (), s2)" using sa u by simp
    show "s4 = s2\<lparr> frames := frames s2 + 1, env := snd (env_step eng (env s2)) \<rparr>"
      by (rule s4_def)
    show "p_all_dones eng s4 (fst (env_step eng (env s2)) \<or> max_frames s2 \<le> frames s2 + 1) = Inr dones"
      using dn eqs(3) by (simp add: d_def)
    show "p_all_rewards eng s4 = Inr rewards" using rw eqs(2) by simp
    show "p_observe_all eng s4 = Inr observes" using ob eqs(1) by simp
    show "infos = py_dict (map (\<lambda>agent. (agent, ())) (agents s2))" by (rule eqs(4))
    show "snd (step eng s acts) = s4\<lparr> all_dones := Some dones \<rparr>"
      using res eqs(3) by simp
  qed
qed

lemma step_inv:
  assumes "env_inv s"
  shows "env_inv (snd (step eng s acts))"
proof -
  obtain r s2 where sa: "send_actions eng s acts = (r, s2)"
    by (cases "send_actions eng s acts")
  have i2: "env_inv s2"
    using send_actions_inv [OF assms, of eng acts] by (simp add: sa)
  show ?thesis
  proof (cases r)
    case (Inl err)
    with sa i2 show ?thesis by (simp add: step_unfold_Inl)
  next
    case (Inr u)
    define s4 where "s4 = s2\<lparr> frames := frames s2 + 1, env := snd (env_step eng (env s2)) \<rparr>"
    define d where "d = (fst (env_step eng (env s2)) \<or> max_frames s2 \<le> frames s2 + 1)"
    note st = step_unfold_Inr [OF sa [unfolded Inr] s4_def d_def]
    from i2 have i4: "env_inv s4" by (simp add: s4_def env_inv_def)
    then have len: "length (possible_agents s4) = max_num_agents s4"
      and sub: "set (agents s4) \<subseteq> set (possible_agents s4)"
      by (simp_all add: env_inv_def)
    show ?thesis
    proof (cases "p_all_dones eng s4 d")
      case (Inl err)
      with i4 show ?thesis by (simp add: st)
    next
      case dn: (Inr dones)
      from p_all_dones_dom [OF dn len] sub have dom: "dom dones = set (agents s4)" by blast
      with i4 have "env_inv (s4\<lparr> all_dones := Some dones \<rparr>)" by (simp add: env_inv_def)
      with i4 show ?thesis by (simp add: st dn split: sum.splits)
    qed
  qed
qed

lemma reachable_inv: "reachable eng s \<Longrightarrow> env_inv s"
  by (induction rule: reachable.induct) (auto intro: init_inv reset_inv step_inv)

section \<open>Where a returned observation comes from\<close>

text \<open>
  Every entry of the list that \<^verbatim>\<open>_observe_all\<close> fills is still \<open>None\<close> or a row of the
  array that lines 87 to 89 compute for a handle, stored under an id that the handle
  reports for this slot.
\<close>

lemma observe_handles_provenance:
  "observe_handles eng e hs os = Inr os' \<Longrightarrow> i < length os \<Longrightarrow>
     os' ! i = os ! i \<or>
     (\<exists>h \<in> set hs. \<exists>fo k.
        fin_obs (fst (env_get_observation eng e h)) (snd (env_get_observation eng e h)) = Inr fo \<and>
        k < length fo \<and> k < length (env_get_agent_id eng e h) \<and>
        py_index (length os) (env_get_agent_id eng e h ! k) = Some i \<and>
        os' ! i = Some (fo ! k))"
proof (induction hs arbitrary: os)
  case Nil
  then show ?case by simp
next
  case (Cons h hs)
  let ?ids = "env_get_agent_id eng e h"
  obtain view features where vf: "env_get_observation eng e h = (view, features)"
    by (cases "env_get_observation eng e h")
  from Cons.prems(1) vf obtain fo os1 where
    fo: "fin_obs view features = Inr fo"
    and 1: "setitems os (zip ?ids (map Some fo)) = Inr os1"
    and 2: "observe_handles eng e hs os1 = Inr os'"
    by (auto split: sum.splits)
  have len: "length os1 = length os" by (rule setitems_length [OF 1])
  from Cons.IH [OF 2] Cons.prems(2) len consider
    (same) "os' ! i = os1 ! i"
    | (later) "\<exists>h \<in> set hs. \<exists>fo k.
        fin_obs (fst (env_get_observation eng e h)) (snd (env_get_observation eng e h)) = Inr fo \<and>
        k < length fo \<and> k < length (env_get_agent_id eng e h) \<and>
        py_index (length os) (env_get_agent_id eng e h ! k) = Some i \<and>
        os' ! i = Some (fo ! k)"
    by auto
  then show ?case
  proof cases
    case same
    from setitems_nth [OF 1 Cons.prems(2)] show ?thesis
    proof
      assume "os1 ! i = os ! i"
      with same show ?thesis by simp
    next
      assume "\<exists>(j, v) \<in> set (zip ?ids (map Some fo)).
          py_index (length os) j = Some i \<and> os1 ! i = v"
      then obtain k where "k < length ?ids" "k < length fo"
        "py_index (length os) (?ids ! k) = Some i" "os1 ! i = Some (fo ! k)"
        by (auto simp: in_set_zip)
      with same fo vf show ?thesis by auto
    qed
  next
    case later
    then show ?thesis by auto
  qed
qed

lemma observation_provenance:
  assumes "env_inv s" and "p_observe_all eng s = Inr d" and "d agent = Some x"
  shows "p_zero_obs s agent = Some x \<or>
     (\<exists>i h fo k.
        i < length (possible_agents s) \<and> possible_agents s ! i = agent \<and>
        h \<in> set (handles s) \<and>
        fin_obs (fst (env_get_observation eng (env s) h))
          (snd (env_get_observation eng (env s) h)) = Inr fo \<and>
        k < length fo \<and> k < length (env_get_agent_id eng (env s) h) \<and>
        py_index (max_num_agents s) (env_get_agent_id eng (env s) h ! k) = Some i \<and>
        x = fo ! k)"
proof -
  from assms(1) have len: "length (possible_agents s) = max_num_agents s"
    by (simp add: env_inv_def)
  from assms(2) obtain os where
    os: "observe_handles eng (env s) (handles s) (replicate (max_num_agents s) None) = Inr os"
    and d: "obs_dict (p_zero_obs s) (set (agents s)) (zip (possible_agents s) os) Map.empty
              = Inr d"
    by (auto simp: p_observe_all_def split: sum.splits)
  from obs_dict_Some [OF d assms(3)] consider
    (zero) "p_zero_obs s agent = Some x"
    | (row) "(agent, Some x) \<in> set (zip (possible_agents s) os)"
    by auto
  then show ?thesis
  proof cases
    case zero
    then show ?thesis by simp
  next
    case row
    then obtain i where i: "i < length (possible_agents s)" "possible_agents s ! i = agent"
      and x: "os ! i = Some x"
      by (auto simp: in_set_zip)
    from i(1) len have "i < length (replicate (max_num_agents s) (None :: obs option))" by simp
    from observe_handles_provenance [OF os this] x i(1) len
    obtain h fo k where "h \<in> set (handles s)"
      "fin_obs (fst (env_get_observation eng (env s) h))
         (snd (env_get_observation eng (env s) h)) = Inr fo"
      "k < length fo" "k < length (env_get_agent_id eng (env s) h)"
      "py_index (max_num_agents s) (env_get_agent_id eng (env s) h ! k) = Some i"
      "x = fo ! k"
      by auto
    with i show ?thesis by blast
  qed
qed

section \<open>The small engine, evaluated\<close>

lemma log_init_ok:
  "init log_engine [] [0, 1] [''red'', ''blue''] 45 mframes = Inr (log_env0 mframes)"
proof -
  have "\<not> isl (init log_engine [] [0, 1] [''red'', ''blue''] 45 mframes)"
    by code_simp
  then show ?thesis by (simp add: log_env0_def)
qed

lemma log_env1_reachable: "reachable log_engine (log_env1 mframes)"
  unfolding log_env1_def by (intro reachable_reset reachable_init) (rule log_init_ok)

lemma log_env2_reachable: "reachable log_engine (log_env2 mframes)"
  unfolding log_env2_def by (intro reachable_step log_env1_reachable)

lemma log_step1_ok:
  "fst (step log_engine (log_env1 10) log_actions) = Inr (log_result1 10)"
proof -
  have "\<not> isl (fst (step log_engine (log_env1 10) log_actions))"
    by code_simp
  then show ?thesis by (simp add: log_result1_def)
qed

lemma log_step1_last_ok:
  "fst (step log_engine (log_env1 1) log_actions) = Inr (log_result1 1)"
proof -
  have "\<not> isl (fst (step log_engine (log_env1 1) log_actions))"
    by code_simp
  then show ?thesis by (simp add: log_result1_def)
qed

lemma log_step2_ok:
  "fst (step log_engine (log_env2 10) late_actions) = Inr (log_result2 10)"
proof -
  have "\<not> isl (fst (step log_engine (log_env2 10) late_actions))"
    by code_simp
  then show ?thesis by (simp add: log_result2_def)
qed

lemma result_collapse:
  "(fst r, fst (snd r), fst (snd (snd r)), snd (snd (snd r))) = (r :: step_result)"
  by simp

section \<open>The properties\<close>

text \<open>
  C1.  When \<^verbatim>\<open>step\<close> returns on an object that was reset, the dictionaries of observations,
  rewards and dones have the same key set, and it is the set of the agents that were
  live and not marked done when the step began.  The action dictionary is arbitrary.
\<close>

theorem step_key_sets:
  assumes "reachable eng s"
    and "fst (step eng s all_actions) = Inr (observes, rewards, dones, infos)"
    and "all_dones s = Some ad"
  shows "dom observes = dom rewards \<and> dom rewards = dom dones \<and>
         dom dones = {agent \<in> set (agents s). ad agent = Some False}"
proof -
  have inv: "env_inv s" by (rule reachable_inv [OF assms(1)])
  from assms(2) obtain s2 s4 where
    sa: "send_actions eng s all_actions = (Inr (), s2)"
    and s4: "s4 = s2\<lparr> frames := frames s2 + 1, env := snd (env_step eng (env s2)) \<rparr>"
    and dn: "p_all_dones eng s4 (fst (env_step eng (env s2)) \<or> max_frames s2 \<le> frames s2 + 1)
               = Inr dones"
    and rw: "p_all_rewards eng s4 = Inr rewards"
    and ob: "p_observe_all eng s4 = Inr observes"
    by (rule step_Inr)
  from sa inv assms(3) obtain arr where
    s2: "s2 = s\<lparr> agents := filter (\<lambda>agent. ad agent = Some False) (agents s),
             env := foldl (\<lambda>e (h, a). env_set_action eng h a e) (env_clear_dead eng (env s))
                      (action_calls (handles s) (team_sizes s) arr) \<rparr>"
    by (rule send_actions_Inr_Some)
  have ags: "agents s4 = filter (\<lambda>agent. ad agent = Some False) (agents s)"
    and pos: "possible_agents s4 = possible_agents s"
    and mx: "max_num_agents s4 = max_num_agents s"
    by (simp_all add: s4 s2)
  from inv have len: "length (possible_agents s4) = max_num_agents s4"
    and sub: "set (agents s) \<subseteq> set (possible_agents s)"
    by (simp_all add: env_inv_def pos mx)
  have keys: "set (possible_agents s4) \<inter> set (agents s4) =
      {agent \<in> set (agents s). ad agent = Some False}"
    using sub by (auto simp: ags pos)
  show ?thesis
    using p_all_dones_dom [OF dn len] p_all_rewards_dom [OF rw len] p_observe_all_dom [OF ob len]
    by (simp only: keys)
qed

theorem step_key_sets_witness:
  "reachable log_engine (log_env1 10) \<and>
   fst (step log_engine (log_env1 10) log_actions) = Inr (log_result1 10) \<and>
   dom (fst (log_result1 10)) = dom (fst (snd (log_result1 10))) \<and>
   dom (fst (snd (log_result1 10))) = dom (fst (snd (snd (log_result1 10)))) \<and>
   dom (fst (snd (snd (log_result1 10)))) = {''red_0'', ''blue_0'', ''blue_1''} \<and>
   log_actions ''ghost'' = Some 7 \<and> log_actions ''blue_0'' = None"
proof -
  define ad where "ad = py_dict (map (\<lambda>agent. (agent, False)) (possible_agents (log_env0 10)))"
  have ad: "all_dones (log_env1 10) = Some ad"
    by (simp add: ad_def log_env1_def reset_state)
  have flags: "map ad [''red_0'', ''blue_0'', ''blue_1''] = [Some False, Some False, Some False]"
    unfolding ad_def by code_simp
  have ags: "agents (log_env1 10) = [''red_0'', ''blue_0'', ''blue_1'']"
    by code_simp
  have "fst (step log_engine (log_env1 10) log_actions) =
      Inr (fst (log_result1 10), fst (snd (log_result1 10)),
           fst (snd (snd (log_result1 10))), snd (snd (snd (log_result1 10))))"
    by (simp only: result_collapse log_step1_ok)
  note keys = step_key_sets [OF log_env1_reachable this ad]
  have "{agent \<in> set (agents (log_env1 10)). ad agent = Some False} =
      {''red_0'', ''blue_0'', ''blue_1''}"
    unfolding ags using flags by fastforce
  with keys have
    "dom (fst (log_result1 10)) = dom (fst (snd (log_result1 10)))"
    "dom (fst (snd (log_result1 10))) = dom (fst (snd (snd (log_result1 10))))"
    "dom (fst (snd (snd (log_result1 10)))) = {''red_0'', ''blue_0'', ''blue_1''}"
    by simp_all
  moreover have "log_actions ''ghost'' = Some 7" "log_actions ''blue_0'' = None"
    by (simp_all add: log_actions_def)
  ultimately show ?thesis
    using log_env1_reachable [of 10] log_step1_ok by blast
qed

lemma p_all_dones_terminal:
  assumes "length (possible_agents s) = max_num_agents s"
    and "set (agents s) \<subseteq> set (possible_agents s)"
  shows "p_all_dones eng s True =
           Inr (\<lambda>agent. if agent \<in> set (agents s) then Some True else None)"
proof -
  let ?d = "dict_comp (set (agents s)) (zip (possible_agents s) (replicate (max_num_agents s) True))"
  have dom: "dom ?d = set (agents s)"
    using assms by (auto simp: dom_dict_comp_zip)
  have "?d agent = (if agent \<in> set (agents s) then Some True else None)" for agent
  proof (cases "agent \<in> set (agents s)")
    case True
    with dom obtain x where x: "?d agent = Some x" by blast
    from dict_comp_zip_Some [OF x] obtain i where
      "i < length (replicate (max_num_agents s) True)" "replicate (max_num_agents s) True ! i = x"
      by blast
    then have "x = True" by simp
    with x True show ?thesis by simp
  next
    case False
    with dom have "?d agent = None" by blast
    with False show ?thesis by simp
  qed
  then show ?thesis by (simp add: p_all_dones_def fun_eq_iff)
qed

text \<open>
  C2.  The flag that \<^verbatim>\<open>step\<close> hands to \<^verbatim>\<open>_all_dones\<close> is the disjunction of the
  engine's end signal and of the frame budget being reached by the incremented frame
  counter.  When it holds, the returned dones dictionary maps every live agent to
  \<open>True\<close>: a dictionary in which the engine's alive flags do not occur.
\<close>

theorem step_termination:
  assumes "reachable eng s"
    and "fst (step eng s all_actions) = Inr (observes, rewards, dones, infos)"
    and "engine_done = fst (env_step eng (env (snd (send_actions eng s all_actions))))"
    and "done = (engine_done \<or> max_frames s \<le> frames s + 1)"
    and "s' = snd (step eng s all_actions)"
  shows "frames s' = frames s + 1 \<and> max_frames s' = max_frames s \<and>
         p_all_dones eng s' done = Inr dones \<and>
         (done \<longrightarrow> dones = (\<lambda>agent. if agent \<in> set (agents s') then Some True else None))"
proof -
  have inv: "env_inv s" by (rule reachable_inv [OF assms(1)])
  from assms(2) obtain s2 s4 where
    sa: "send_actions eng s all_actions = (Inr (), s2)"
    and s4: "s4 = s2\<lparr> frames := frames s2 + 1, env := snd (env_step eng (env s2)) \<rparr>"
    and dn: "p_all_dones eng s4 (fst (env_step eng (env s2)) \<or> max_frames s2 \<le> frames s2 + 1)
               = Inr dones"
    and s': "snd (step eng s all_actions) = s4\<lparr> all_dones := Some dones \<rparr>"
    by (rule step_Inr)
  from sa inv obtain kept arr where
    s2: "s2 = s\<lparr> agents := kept,
             env := foldl (\<lambda>e (h, a). env_set_action eng h a e) (env_clear_dead eng (env s))
                      (action_calls (handles s) (team_sizes s) arr) \<rparr>"
    by (rule send_actions_Inr)
  have fr: "frames s2 = frames s" "max_frames s2 = max_frames s" by (simp_all add: s2)
  have d: "done = (fst (env_step eng (env s2)) \<or> max_frames s2 \<le> frames s2 + 1)"
    by (simp add: assms(3,4) sa fr)
  have same: "p_all_dones eng s' flag = p_all_dones eng s4 flag" for flag
    by (simp add: assms(5) s' p_all_dones_def cong: sum.case_cong)
  have inv': "env_inv s'"
    unfolding assms(5) by (rule step_inv [OF inv])
  then have len: "length (possible_agents s') = max_num_agents s'"
    and sub: "set (agents s') \<subseteq> set (possible_agents s')"
    by (simp_all add: env_inv_def)
  have "dones = (\<lambda>agent. if agent \<in> set (agents s') then Some True else None)" if "done"
    using dn that p_all_dones_terminal [OF len sub, of eng] by (simp add: d [symmetric] same [symmetric])
  moreover have "p_all_dones eng s' done = Inr dones"
    using dn by (simp add: same d)
  moreover have "frames s' = frames s + 1" "max_frames s' = max_frames s"
    by (simp_all add: assms(5) s' s4 fr)
  ultimately show ?thesis by blast
qed

theorem step_termination_witness:
  "reachable log_engine (log_env1 1) \<and>
   fst (step log_engine (log_env1 1) log_actions) = Inr (log_result1 1) \<and>
   fst (env_step log_engine (env (snd (send_actions log_engine (log_env1 1) log_actions)))) = False \<and>
   max_frames (log_env1 1) \<le> frames (log_env1 1) + 1 \<and>
   frames (log_env2 1) = 1 \<and>
   fst (snd (snd (log_result1 1))) =
     (\<lambda>agent. if agent \<in> set (agents (log_env2 1)) then Some True else None) \<and>
   agents (log_env2 1) = [''red_0'', ''blue_0'', ''blue_1''] \<and>
   env_get_alive log_engine (env (log_env2 1)) 0 = [True]"
proof -
  have res: "fst (step log_engine (log_env1 1) log_actions) =
      Inr (fst (log_result1 1), fst (snd (log_result1 1)),
           fst (snd (snd (log_result1 1))), snd (snd (snd (log_result1 1))))"
    by (simp only: result_collapse log_step1_last_ok)
  have eng: "fst (env_step log_engine (env (snd (send_actions log_engine (log_env1 1) log_actions))))
      = False"
    by code_simp
  have budget: "max_frames (log_env1 1) \<le> frames (log_env1 1) + 1"
    by code_simp
  have fr: "frames (log_env1 1) = 0" by code_simp
  have ags: "agents (log_env2 1) = [''red_0'', ''blue_0'', ''blue_1'']" by code_simp
  have alive: "env_get_alive log_engine (env (log_env2 1)) 0 = [True]" by code_simp
  from step_termination [OF log_env1_reachable res refl refl refl] budget fr
  have "frames (log_env2 1) = 1"
    and "fst (snd (snd (log_result1 1))) =
     (\<lambda>agent. if agent \<in> set (agents (log_env2 1)) then Some True else None)"
    by (simp_all add: log_env2_def)
  with eng budget ags alive show ?thesis
    using log_env1_reachable [of 1] log_step1_last_ok by blast
qed

lemma np_asarray_int32_Inr:
  "np_asarray_int32 xs = Inr arr \<Longrightarrow> arr = map word_of_int xs"
  by (simp add: np_asarray_int32_def split: if_splits)

lemma sum_take_nth_le:
  assumes "i < length (tsizes :: nat list)"
  shows "sum_list (take i tsizes) + tsizes ! i \<le> sum_list tsizes"
proof -
  have "sum_list tsizes = sum_list (take (Suc i) tsizes) + sum_list (drop (Suc i) tsizes)"
    by (metis append_take_drop_id sum_list_append)
  moreover have "sum_list (take (Suc i) tsizes) = sum_list (take i tsizes) + tsizes ! i"
    using assms by (simp add: take_Suc_conv_app_nth)
  ultimately show ?thesis by simp
qed

lemma length_action_calls: "length (action_calls hs tsizes arr) = length hs"
  by (simp add: action_calls_def)

lemma nth_action_calls:
  "i < length hs \<Longrightarrow>
     action_calls hs tsizes arr ! i =
       (hs ! i, take (tsizes ! i) (drop (sum_list (take i tsizes)) arr))"
  by (simp add: action_calls_def)

text \<open>
  C8.  When lines 114 to 125 of \<^verbatim>\<open>step\<close> complete, the engine has received, after
  \<^verbatim>\<open>clear_dead\<close>, one \<^verbatim>\<open>set_action\<close> call per handle, in the order of the handles; the
  call for handle \<open>i\<close> carries the slice of the flat array that starts at the sum of the
  team sizes before \<open>i\<close> and has the length of team \<open>i\<close>, which holds the actions of the
  agents at these positions of \<^verbatim>\<open>possible_agents\<close>; the slices, put end to end, are the
  whole array.
\<close>

theorem set_action_slices:
  assumes "reachable eng s"
    and "fst (send_actions eng s all_actions) = Inr u"
  shows "\<exists>arr calls.
           np_asarray_int32 (map (action_of all_actions) (possible_agents s)) = Inr arr \<and>
           length arr = max_num_agents s \<and>
           env (snd (send_actions eng s all_actions)) =
             foldl (\<lambda>e (h, a). env_set_action eng h a e) (env_clear_dead eng (env s)) calls \<and>
           length calls = length (handles s) \<and>
           (\<forall>i < length (handles s).
              calls ! i =
                (handles s ! i,
                 np_slice arr (sum_list (take i (team_sizes s)))
                   (sum_list (take i (team_sizes s)) + team_sizes s ! i)) \<and>
              snd (calls ! i) =
                map (\<lambda>agent. word_of_int (action_of all_actions agent))
                  (np_slice (possible_agents s) (sum_list (take i (team_sizes s)))
                     (sum_list (take i (team_sizes s)) + team_sizes s ! i)) \<and>
              length (snd (calls ! i)) = team_sizes s ! i) \<and>
           concat (map snd calls) = arr"
proof -
  have inv: "env_inv s" by (rule reachable_inv [OF assms(1)])
  then have len: "length (possible_agents s) = max_num_agents s"
    and lt: "length (team_sizes s) = length (handles s)"
    and mx: "max_num_agents s = sum_list (team_sizes s)"
    by (simp_all add: env_inv_def)
  obtain s2 where sa: "send_actions eng s all_actions = (Inr u, s2)"
    using assms(2) by (cases "send_actions eng s all_actions") simp
  from sa inv obtain kept arr where
    arr: "np_asarray_int32 (map (action_of all_actions) (possible_agents s)) = Inr arr"
    and s2: "s2 = s\<lparr> agents := kept,
             env := foldl (\<lambda>e (h, a). env_set_action eng h a e) (env_clear_dead eng (env s))
                      (action_calls (handles s) (team_sizes s) arr) \<rparr>"
    by (rule send_actions_Inr)
  let ?calls = "action_calls (handles s) (team_sizes s) arr"
  have arr_eq: "arr = map (\<lambda>agent. word_of_int (action_of all_actions agent)) (possible_agents s)"
    using np_asarray_int32_Inr [OF arr] by (simp add: comp_def)
  then have la: "length arr = max_num_agents s" by (simp add: len)
  have e: "env (snd (send_actions eng s all_actions)) =
      foldl (\<lambda>e (h, a). env_set_action eng h a e) (env_clear_dead eng (env s)) ?calls"
    by (simp add: sa s2)
  have nth: "?calls ! i =
        (handles s ! i,
         np_slice arr (sum_list (take i (team_sizes s)))
           (sum_list (take i (team_sizes s)) + team_sizes s ! i))"
    if "i < length (handles s)" for i
    using that by (simp add: nth_action_calls np_slice_def)
  have own: "snd (?calls ! i) =
        map (\<lambda>agent. word_of_int (action_of all_actions agent))
          (np_slice (possible_agents s) (sum_list (take i (team_sizes s)))
             (sum_list (take i (team_sizes s)) + team_sizes s ! i))"
    if "i < length (handles s)" for i
    using that by (simp add: nth_action_calls np_slice_def arr_eq take_map drop_map)
  have full: "length (snd (?calls ! i)) = team_sizes s ! i"
    if "i < length (handles s)" for i
  proof -
    from that lt have "sum_list (take i (team_sizes s)) + team_sizes s ! i \<le> sum_list (team_sizes s)"
      by (intro sum_take_nth_le) simp
    with that show ?thesis
      by (simp add: nth_action_calls la mx)
  qed
  have cover: "concat (map snd ?calls) = arr"
    by (rule concat_action_calls [OF lt]) (simp add: la mx)
  from arr la e nth own full cover show ?thesis
    by (intro exI [of _ arr] exI [of _ ?calls]) (simp add: length_action_calls)
qed

theorem set_action_slices_witness:
  "reachable log_engine (log_env1 10) \<and>
   fst (send_actions log_engine (log_env1 10) log_actions) = Inr () \<and>
   env (log_env1 10) = [Reset, GenerateMap, Reset, GenerateMap] \<and>
   env (snd (send_actions log_engine (log_env1 10) log_actions)) =
     [Reset, GenerateMap, Reset, GenerateMap, ClearDead, SetAction 0 [3], SetAction 1 [0, 0]] \<and>
   team_sizes (log_env1 10) = [1, 2] \<and>
   (\<exists>arr calls.
      np_asarray_int32 (map (action_of log_actions) (possible_agents (log_env1 10))) = Inr arr \<and>
      length arr = max_num_agents (log_env1 10) \<and>
      env (snd (send_actions log_engine (log_env1 10) log_actions)) =
        foldl (\<lambda>e (h, a). env_set_action log_engine h a e)
          (env_clear_dead log_engine (env (log_env1 10))) calls \<and>
      length calls = length (handles (log_env1 10)) \<and>
      concat (map snd calls) = arr)"
proof -
  have ok: "fst (send_actions log_engine (log_env1 10) log_actions) = Inr ()"
    by code_simp
  have e1: "env (log_env1 10) = [Reset, GenerateMap, Reset, GenerateMap]"
    by code_simp
  have e2: "env (snd (send_actions log_engine (log_env1 10) log_actions)) =
     [Reset, GenerateMap, Reset, GenerateMap, ClearDead, SetAction 0 [3], SetAction 1 [0, 0]]"
    by code_simp
  have ts: "team_sizes (log_env1 10) = [1, 2]"
    by code_simp
  from set_action_slices [OF log_env1_reachable ok] ok e1 e2 ts
  show ?thesis using log_env1_reachable [of 10] by blast
qed

text \<open>
  C3.  When lines 114 to 125 of \<^verbatim>\<open>step\<close> complete, the flat action list holds 0 at the
  position of every possible agent for which the action dictionary has no entry; so does
  the \<^verbatim>\<open>int32\<close> array made from it, whose slices are what the engine receives through
  \<^verbatim>\<open>set_action\<close>: the slice of the agent's group holds 0 at the agent's place in it.
\<close>

theorem missing_action_is_noop:
  assumes "reachable eng s"
    and "fst (send_actions eng s all_actions) = Inr u"
    and "i < length (possible_agents s)"
    and "all_actions (possible_agents s ! i) = None"
  shows "\<exists>action_list arr.
           fill_actions all_actions (enumerate 0 (possible_agents s))
             (replicate (max_num_agents s) 0) = Inr action_list \<and>
           action_list ! i = 0 \<and>
           np_asarray_int32 action_list = Inr arr \<and>
           arr ! i = 0 \<and>
           env (snd (send_actions eng s all_actions)) =
             foldl (\<lambda>e (h, a). env_set_action eng h a e) (env_clear_dead eng (env s))
               (action_calls (handles s) (team_sizes s) arr) \<and>
           concat (map snd (action_calls (handles s) (team_sizes s) arr)) ! i = 0 \<and>
           (\<forall>j p. j < length (handles s) \<and> p < team_sizes s ! j \<and>
                  i = sum_list (take j (team_sizes s)) + p \<longrightarrow>
                  snd (action_calls (handles s) (team_sizes s) arr ! j) ! p = 0)"
proof -
  have inv: "env_inv s" by (rule reachable_inv [OF assms(1)])
  then have len: "length (possible_agents s) = max_num_agents s"
    and lt: "length (team_sizes s) = length (handles s)"
    and mx: "max_num_agents s = sum_list (team_sizes s)"
    by (simp_all add: env_inv_def)
  obtain s2 where sa: "send_actions eng s all_actions = (Inr u, s2)"
    using assms(2) by (cases "send_actions eng s all_actions") simp
  from sa inv obtain kept arr where
    arr: "np_asarray_int32 (map (action_of all_actions) (possible_agents s)) = Inr arr"
    and s2: "s2 = s\<lparr> agents := kept,
             env := foldl (\<lambda>e (h, a). env_set_action eng h a e) (env_clear_dead eng (env s))
                      (action_calls (handles s) (team_sizes s) arr) \<rparr>"
    by (rule send_actions_Inr)
  let ?al = "map (action_of all_actions) (possible_agents s)"
  let ?calls = "action_calls (handles s) (team_sizes s) arr"
  have fill: "fill_actions all_actions (enumerate 0 (possible_agents s))
          (replicate (max_num_agents s) 0) = Inr ?al"
    by (rule fill_actions_all [OF len])
  have zero: "action_of all_actions (possible_agents s ! i) = 0"
    using assms(4) by (simp add: action_of_def)
  then have ali: "?al ! i = 0"
    using assms(3) by simp
  have arri: "arr ! i = 0"
    using np_asarray_int32_Inr [OF arr] zero assms(3) by simp
  have la: "length arr = max_num_agents s"
    using np_asarray_int32_Inr [OF arr] by (simp add: len)
  have e: "env (snd (send_actions eng s all_actions)) =
      foldl (\<lambda>e (h, a). env_set_action eng h a e) (env_clear_dead eng (env s)) ?calls"
    by (simp add: sa s2)
  have "concat (map snd ?calls) = arr"
    by (intro concat_action_calls [OF lt]) (simp add: la mx)
  with arri have flat: "concat (map snd ?calls) ! i = 0" by simp
  have group: "snd (?calls ! j) ! p = 0"
    if "j < length (handles s)" "p < team_sizes s ! j"
      "i = sum_list (take j (team_sizes s)) + p" for j p
  proof -
    have "snd (?calls ! j) ! p =
        take (team_sizes s ! j) (drop (sum_list (take j (team_sizes s))) arr) ! p"
      using that(1) by (simp add: nth_action_calls)
    also have "\<dots> = arr ! (sum_list (take j (team_sizes s)) + p)"
      using that(2,3) assms(3) la len by simp
    finally show ?thesis using arri that(3) by simp
  qed
  from fill ali arr arri e flat group show ?thesis by blast
qed

theorem missing_action_is_noop_witness:
  "reachable log_engine (log_env1 10) \<and>
   fst (send_actions log_engine (log_env1 10) log_actions) = Inr () \<and>
   possible_agents (log_env1 10) ! 1 = ''blue_0'' \<and>
   log_actions ''blue_0'' = None \<and>
   fill_actions log_actions (enumerate 0 (possible_agents (log_env1 10)))
     (replicate (max_num_agents (log_env1 10)) 0) = Inr [3, 0, 0] \<and>
   np_asarray_int32 [3, 0, 0] = Inr [3, 0, 0] \<and>
   env (snd (send_actions log_engine (log_env1 10) log_actions)) =
     env (log_env1 10) @ [ClearDead, SetAction 0 [3], SetAction 1 [0, 0]] \<and>
   snd (action_calls (handles (log_env1 10)) (team_sizes (log_env1 10)) [3, 0, 0 :: int32] ! 1) ! 0 = 0"
proof -
  have ok: "fst (send_actions log_engine (log_env1 10) log_actions) = Inr ()"
    by code_simp
  have pos: "possible_agents (log_env1 10) ! 1 = ''blue_0''" by code_simp
  have len: "1 < length (possible_agents (log_env1 10))" by code_simp
  have "log_actions ''blue_0'' = None"
    by (simp add: log_actions_def)
  then have none: "log_actions (possible_agents (log_env1 10) ! 1) = None"
    by (simp only: pos)
  have fill: "fill_actions log_actions (enumerate 0 (possible_agents (log_env1 10)))
     (replicate (max_num_agents (log_env1 10)) 0) = Inr [3, 0, 0]"
    by code_simp
  have arr: "np_asarray_int32 [3, 0, 0] = Inr [3, 0, 0]" by code_simp
  have e: "env (snd (send_actions log_engine (log_env1 10) log_actions)) =
     env (log_env1 10) @ [ClearDead, SetAction 0 [3], SetAction 1 [0, 0]]"
    by code_simp
  have hs: "1 < length (handles (log_env1 10))" "0 < team_sizes (log_env1 10) ! 1"
    "(1 :: nat) = sum_list (take 1 (team_sizes (log_env1 10))) + 0"
    by code_simp+
  from missing_action_is_noop
    [where all_actions = log_actions and i = 1, OF log_env1_reachable [of 10] ok len none]
  obtain action_list arr' where
    "fill_actions log_actions (enumerate 0 (possible_agents (log_env1 10)))
       (replicate (max_num_agents (log_env1 10)) 0) = Inr action_list"
    "np_asarray_int32 action_list = Inr arr'"
    and grp: "\<forall>j p. j < length (handles (log_env1 10)) \<and> p < team_sizes (log_env1 10) ! j \<and>
                  1 = sum_list (take j (team_sizes (log_env1 10))) + p \<longrightarrow>
                  snd (action_calls (handles (log_env1 10)) (team_sizes (log_env1 10)) arr' ! j) ! p = 0"
    by blast
  with fill arr have "arr' = [3, 0, 0]" by simp
  with grp hs have
    "snd (action_calls (handles (log_env1 10)) (team_sizes (log_env1 10)) [3, 0, 0 :: int32] ! 1) ! 0 = 0"
    by blast
  with ok pos none fill arr e show ?thesis
    using log_env1_reachable [of 10] \<open>log_actions ''blue_0'' = None\<close> by blast
qed

text \<open>
  C10.  An agent that the previous dones dictionary marks done leaves the live agents at
  the start of the step; an action that the dictionary supplies for it is written to
  the flat list at the position of the agent in \<^verbatim>\<open>possible_agents\<close> all the same,
  converted to \<^verbatim>\<open>int32\<close>, and is part of the slices handed to \<^verbatim>\<open>set_action\<close>.
\<close>

theorem done_agent_action_forwarded:
  assumes "reachable eng s"
    and "fst (send_actions eng s all_actions) = Inr u"
    and "all_dones s = Some ad"
    and "ad agent = Some True"
    and "i < length (possible_agents s)"
    and "possible_agents s ! i = agent"
    and "all_actions agent = Some a"
  shows "agent \<notin> set (agents (snd (send_actions eng s all_actions))) \<and>
         (\<exists>action_list arr.
            fill_actions all_actions (enumerate 0 (possible_agents s))
              (replicate (max_num_agents s) 0) = Inr action_list \<and>
            action_list ! i = a \<and>
            np_asarray_int32 action_list = Inr arr \<and>
            arr ! i = word_of_int a \<and>
            env (snd (send_actions eng s all_actions)) =
              foldl (\<lambda>e (h, a). env_set_action eng h a e) (env_clear_dead eng (env s))
                (action_calls (handles s) (team_sizes s) arr) \<and>
            concat (map snd (action_calls (handles s) (team_sizes s) arr)) ! i = word_of_int a)"
proof -
  have inv: "env_inv s" by (rule reachable_inv [OF assms(1)])
  then have len: "length (possible_agents s) = max_num_agents s"
    and lt: "length (team_sizes s) = length (handles s)"
    and mx: "max_num_agents s = sum_list (team_sizes s)"
    by (simp_all add: env_inv_def)
  obtain s2 where sa: "send_actions eng s all_actions = (Inr u, s2)"
    using assms(2) by (cases "send_actions eng s all_actions") simp
  from sa inv assms(3) obtain arr where
    arr: "np_asarray_int32 (map (action_of all_actions) (possible_agents s)) = Inr arr"
    and s2: "s2 = s\<lparr> agents := filter (\<lambda>agent. ad agent = Some False) (agents s),
             env := foldl (\<lambda>e (h, a). env_set_action eng h a e) (env_clear_dead eng (env s))
                      (action_calls (handles s) (team_sizes s) arr) \<rparr>"
    by (rule send_actions_Inr_Some)
  let ?al = "map (action_of all_actions) (possible_agents s)"
  have gone: "agent \<notin> set (agents (snd (send_actions eng s all_actions)))"
    using assms(4) by (simp add: sa s2)
  have fill: "fill_actions all_actions (enumerate 0 (possible_agents s))
          (replicate (max_num_agents s) 0) = Inr ?al"
    by (rule fill_actions_all [OF len])
  have ali: "?al ! i = a"
    using assms(5,6,7) by (simp add: action_of_def)
  have arri: "arr ! i = word_of_int a"
    using np_asarray_int32_Inr [OF arr] assms(5,6,7) by (simp add: action_of_def)
  have e: "env (snd (send_actions eng s all_actions)) =
      foldl (\<lambda>e (h, a). env_set_action eng h a e) (env_clear_dead eng (env s))
        (action_calls (handles s) (team_sizes s) arr)"
    by (simp add: sa s2)
  have "length arr = max_num_agents s"
    using np_asarray_int32_Inr [OF arr] by (simp add: len)
  then have "concat (map snd (action_calls (handles s) (team_sizes s) arr)) = arr"
    by (intro concat_action_calls [OF lt]) (simp add: mx)
  with arri have "concat (map snd (action_calls (handles s) (team_sizes s) arr)) ! i = word_of_int a"
    by simp
  with gone fill ali arr arri e show ?thesis by blast
qed

theorem done_agent_action_forwarded_witness:
  "reachable log_engine (log_env2 10) \<and>
   fst (send_actions log_engine (log_env2 10) late_actions) = Inr () \<and>
   agents (log_env2 10) = [''red_0'', ''blue_0'', ''blue_1''] \<and>
   map (the (all_dones (log_env2 10))) [''red_0'', ''blue_0'', ''blue_1''] =
     [Some False, Some True, Some False] \<and>
   possible_agents (log_env2 10) ! 1 = ''blue_0'' \<and>
   late_actions ''blue_0'' = Some 4 \<and>
   agents (snd (send_actions log_engine (log_env2 10) late_actions)) = [''red_0'', ''blue_1''] \<and>
   ''blue_0'' \<notin> set (agents (snd (send_actions log_engine (log_env2 10) late_actions))) \<and>
   drop 8 (env (snd (send_actions log_engine (log_env2 10) late_actions))) =
     [ClearDead, SetAction 0 [0], SetAction 1 [4, 0]]"
proof -
  have ok: "fst (send_actions log_engine (log_env2 10) late_actions) = Inr ()"
    by code_simp
  have ags: "agents (log_env2 10) = [''red_0'', ''blue_0'', ''blue_1'']"
    by code_simp
  have flags: "map (the (all_dones (log_env2 10))) [''red_0'', ''blue_0'', ''blue_1''] =
     [Some False, Some True, Some False]"
    by code_simp
  have some: "all_dones (log_env2 10) = Some (the (all_dones (log_env2 10)))"
  proof -
    have "\<not> Option.is_none (all_dones (log_env2 10))" by code_simp
    then show ?thesis by (simp add: Option.is_none_def)
  qed
  have pos: "possible_agents (log_env2 10) ! 1 = ''blue_0''" by code_simp
  have len: "1 < length (possible_agents (log_env2 10))" by code_simp
  have act: "late_actions ''blue_0'' = Some 4" by (simp add: late_actions_def)
  have after: "agents (snd (send_actions log_engine (log_env2 10) late_actions)) =
      [''red_0'', ''blue_1'']"
    by code_simp
  have calls: "drop 8 (env (snd (send_actions log_engine (log_env2 10) late_actions))) =
     [ClearDead, SetAction 0 [0], SetAction 1 [4, 0]]"
    by code_simp
  from flags have marked: "the (all_dones (log_env2 10)) ''blue_0'' = Some True" by simp
  note fw = done_agent_action_forwarded
    [where all_actions = late_actions and i = 1, OF log_env2_reachable [of 10] ok some marked len pos act]
  with ok ags flags pos act after calls show ?thesis
    using log_env2_reachable [of 10] by blast
qed

lemma dom_infos: "dom (py_dict (map (\<lambda>agent. (agent, ())) ags)) = set ags"
  by (simp add: dom_py_dict image_image)

text \<open>
  C5.  When \<^verbatim>\<open>step\<close> returns, the live agents are the previous live agents whose flag in
  the previous dones dictionary (of the prior step, or of \<^verbatim>\<open>reset\<close>) is \<open>False\<close>, in
  their order; the engine has run \<^verbatim>\<open>clear_dead\<close> first, then the \<^verbatim>\<open>set_action\<close> calls,
  then \<^verbatim>\<open>step\<close>; the four returned dictionaries are keyed by the filtered agents, and
  the returned dones are the flags for the next step.
\<close>

theorem step_filters_done_agents:
  assumes "reachable eng s"
    and "fst (step eng s all_actions) = Inr (observes, rewards, dones, infos)"
    and "all_dones s = Some ad"
    and "s' = snd (step eng s all_actions)"
  shows "agents s' = filter (\<lambda>agent. ad agent = Some False) (agents s) \<and>
         (\<exists>arr. env s' =
            snd (env_step eng
              (foldl (\<lambda>e (h, a). env_set_action eng h a e) (env_clear_dead eng (env s))
                 (action_calls (handles s) (team_sizes s) arr)))) \<and>
         dom observes = set (agents s') \<and> dom rewards = set (agents s') \<and>
         dom dones = set (agents s') \<and> dom infos = set (agents s') \<and>
         all_dones s' = Some dones"
proof -
  have inv: "env_inv s" by (rule reachable_inv [OF assms(1)])
  from assms(2) obtain s2 s4 where
    sa: "send_actions eng s all_actions = (Inr (), s2)"
    and s4: "s4 = s2\<lparr> frames := frames s2 + 1, env := snd (env_step eng (env s2)) \<rparr>"
    and dn: "p_all_dones eng s4 (fst (env_step eng (env s2)) \<or> max_frames s2 \<le> frames s2 + 1)
               = Inr dones"
    and rw: "p_all_rewards eng s4 = Inr rewards"
    and ob: "p_observe_all eng s4 = Inr observes"
    and inf: "infos = py_dict (map (\<lambda>agent. (agent, ())) (agents s2))"
    and s': "snd (step eng s all_actions) = s4\<lparr> all_dones := Some dones \<rparr>"
    by (rule step_Inr)
  from sa inv assms(3) obtain arr where
    s2: "s2 = s\<lparr> agents := filter (\<lambda>agent. ad agent = Some False) (agents s),
             env := foldl (\<lambda>e (h, a). env_set_action eng h a e) (env_clear_dead eng (env s))
                      (action_calls (handles s) (team_sizes s) arr) \<rparr>"
    by (rule send_actions_Inr_Some)
  have ags: "agents s' = filter (\<lambda>agent. ad agent = Some False) (agents s)"
    by (simp add: assms(4) s' s4 s2)
  have ags4: "agents s4 = agents s'" "agents s2 = agents s'"
    by (simp_all add: assms(4) s' s4)
  have e: "env s' = snd (env_step eng
              (foldl (\<lambda>e (h, a). env_set_action eng h a e) (env_clear_dead eng (env s))
                 (action_calls (handles s) (team_sizes s) arr)))"
    by (simp add: assms(4) s' s4 s2)
  from inv have len: "length (possible_agents s4) = max_num_agents s4"
    and sub: "set (agents s) \<subseteq> set (possible_agents s)"
    by (simp_all add: env_inv_def s4 s2)
  have "set (agents s') \<subseteq> set (possible_agents s4)"
    using sub by (auto simp: ags s4 s2)
  then have keys: "set (possible_agents s4) \<inter> set (agents s4) = set (agents s')"
    by (auto simp: ags4)
  have "dom observes = set (agents s')" "dom rewards = set (agents s')"
    "dom dones = set (agents s')"
    using p_all_dones_dom [OF dn len] p_all_rewards_dom [OF rw len] p_observe_all_dom [OF ob len]
    by (simp_all only: keys)
  moreover have "dom infos = set (agents s')"
    by (simp only: inf dom_infos ags4)
  moreover have "all_dones s' = Some dones"
    by (simp add: assms(4) s')
  ultimately show ?thesis using ags e by blast
qed

theorem step_filters_done_agents_witness:
  "reachable log_engine (log_env2 10) \<and>
   fst (step log_engine (log_env2 10) late_actions) = Inr (log_result2 10) \<and>
   agents (log_env2 10) = [''red_0'', ''blue_0'', ''blue_1''] \<and>
   map (the (all_dones (log_env2 10))) [''red_0'', ''blue_0'', ''blue_1''] =
     [Some False, Some True, Some False] \<and>
   agents (log_env3 10) = [''red_0'', ''blue_1''] \<and>
   drop 8 (env (log_env3 10)) = [ClearDead, SetAction 0 [0], SetAction 1 [4, 0], Step] \<and>
   dom (fst (log_result2 10)) = {''red_0'', ''blue_1''} \<and>
   dom (fst (snd (log_result2 10))) = {''red_0'', ''blue_1''} \<and>
   dom (fst (snd (snd (log_result2 10)))) = {''red_0'', ''blue_1''} \<and>
   dom (snd (snd (snd (log_result2 10)))) = {''red_0'', ''blue_1''}"
proof -
  have res: "fst (step log_engine (log_env2 10) late_actions) =
      Inr (fst (log_result2 10), fst (snd (log_result2 10)),
           fst (snd (snd (log_result2 10))), snd (snd (snd (log_result2 10))))"
    by (simp only: result_collapse log_step2_ok)
  have ags: "agents (log_env2 10) = [''red_0'', ''blue_0'', ''blue_1'']"
    by code_simp
  have flags: "map (the (all_dones (log_env2 10))) [''red_0'', ''blue_0'', ''blue_1''] =
     [Some False, Some True, Some False]"
    by code_simp
  have some: "all_dones (log_env2 10) = Some (the (all_dones (log_env2 10)))"
  proof -
    have "\<not> Option.is_none (all_dones (log_env2 10))" by code_simp
    then show ?thesis by (simp add: Option.is_none_def)
  qed
  have ags3: "agents (log_env3 10) = [''red_0'', ''blue_1'']" by code_simp
  have e3: "drop 8 (env (log_env3 10)) = [ClearDead, SetAction 0 [0], SetAction 1 [4, 0], Step]"
    by code_simp
  from step_filters_done_agents [OF log_env2_reachable res some refl]
  have "dom (fst (log_result2 10)) = set (agents (log_env3 10))"
    "dom (fst (snd (log_result2 10))) = set (agents (log_env3 10))"
    "dom (fst (snd (snd (log_result2 10)))) = set (agents (log_env3 10))"
    "dom (snd (snd (snd (log_result2 10)))) = set (agents (log_env3 10))"
    by (simp_all add: log_env3_def)
  then have
    "dom (fst (log_result2 10)) = {''red_0'', ''blue_1''}"
    "dom (fst (snd (log_result2 10))) = {''red_0'', ''blue_1''}"
    "dom (fst (snd (snd (log_result2 10)))) = {''red_0'', ''blue_1''}"
    "dom (snd (snd (snd (log_result2 10)))) = {''red_0'', ''blue_1''}"
    by (simp_all add: ags3)
  with ags flags ags3 e3 show ?thesis
    using log_env2_reachable [of 10] log_step2_ok by blast
qed

lemma py_dict_const:
  "py_dict (map (\<lambda>k. (k, c)) ks) = (\<lambda>k. if k \<in> set ks then Some c else None)"
proof
  fix k
  let ?d = "py_dict (map (\<lambda>k. (k, c)) ks)"
  have dom: "dom ?d = set ks" by (simp add: dom_py_dict image_image)
  show "?d k = (if k \<in> set ks then Some c else None)"
  proof (cases "k \<in> set ks")
    case True
    with dom obtain x where x: "?d k = Some x" by blast
    from py_dict_Some [OF x] have "x = c" by auto
    with x True show ?thesis by simp
  next
    case False
    with dom have "?d k = None" by blast
    with False show ?thesis by simp
  qed
qed

text \<open>
  C6.  \<^verbatim>\<open>reset\<close> sets the frame counter to 0, sets the done flag of every possible agent to
  \<open>False\<close>, restores the live agents to \<^verbatim>\<open>possible_agents\<close>, resets the engine (and
  generates the map on it), and the observation dictionary it returns is keyed by
  exactly the possible agents.
\<close>

theorem reset_restores:
  assumes "reachable eng s"
    and "s' = snd (reset eng s)"
  shows "frames s' = 0 \<and>
         all_dones s' = Some (\<lambda>agent. if agent \<in> set (possible_agents s) then Some False else None) \<and>
         agents s' = possible_agents s \<and>
         possible_agents s' = possible_agents s \<and>
         env s' = generate_map eng (env_reset eng (env s)) \<and>
         (\<forall>d. fst (reset eng s) = Inr d \<longrightarrow> dom d = set (possible_agents s))"
proof -
  have inv: "env_inv s" by (rule reachable_inv [OF assms(1)])
  have st: "s' = s\<lparr> num_agents := Some (length (possible_agents s)),
        agents := possible_agents s,
        env := generate_map eng (env_reset eng (env s)),
        frames := 0,
        all_dones := Some (py_dict (map (\<lambda>agent. (agent, False)) (possible_agents s))) \<rparr>"
    unfolding assms(2) by (rule reset_state)
  have "dom d = set (possible_agents s)" if "fst (reset eng s) = Inr d" for d
  proof -
    from that have ob: "p_observe_all eng s' = Inr d"
      by (simp add: reset_result assms(2))
    from inv have "length (possible_agents s') = max_num_agents s'"
      by (simp add: st env_inv_def)
    from p_observe_all_dom [OF ob this] show ?thesis by (simp add: st)
  qed
  then show ?thesis
    by (simp add: st py_dict_const)
qed

theorem reset_restores_witness:
  "reachable log_engine (log_env3 10) \<and>
   frames (log_env3 10) = 2 \<and>
   agents (log_env3 10) = [''red_0'', ''blue_1''] \<and>
   possible_agents (log_env3 10) = [''red_0'', ''blue_0'', ''blue_1''] \<and>
   frames (snd (reset log_engine (log_env3 10))) = 0 \<and>
   agents (snd (reset log_engine (log_env3 10))) = [''red_0'', ''blue_0'', ''blue_1''] \<and>
   all_dones (snd (reset log_engine (log_env3 10))) =
     Some (\<lambda>agent. if agent \<in> set (possible_agents (log_env3 10)) then Some False else None) \<and>
   env (snd (reset log_engine (log_env3 10))) = env (log_env3 10) @ [Reset, GenerateMap] \<and>
   \<not> isl (fst (reset log_engine (log_env3 10))) \<and>
   dom (projr (fst (reset log_engine (log_env3 10)))) = {''red_0'', ''blue_0'', ''blue_1''}"
proof -
  have r3: "reachable log_engine (log_env3 10)"
    unfolding log_env3_def by (intro reachable_step log_env2_reachable)
  have fr: "frames (log_env3 10) = 2" by code_simp
  have ags: "agents (log_env3 10) = [''red_0'', ''blue_1'']" by code_simp
  have pos: "possible_agents (log_env3 10) = [''red_0'', ''blue_0'', ''blue_1'']" by code_simp
  have ok: "\<not> isl (fst (reset log_engine (log_env3 10)))" by code_simp
  then have res: "fst (reset log_engine (log_env3 10)) =
      Inr (projr (fst (reset log_engine (log_env3 10))))"
    by simp
  note rr = reset_restores [OF r3 refl]
  from rr res have "dom (projr (fst (reset log_engine (log_env3 10)))) =
      set (possible_agents (log_env3 10))"
    by blast
  then have dom: "dom (projr (fst (reset log_engine (log_env3 10)))) =
      {''red_0'', ''blue_0'', ''blue_1''}"
    by (simp add: pos)
  from rr have "frames (snd (reset log_engine (log_env3 10))) = 0"
    "agents (snd (reset log_engine (log_env3 10))) = possible_agents (log_env3 10)"
    "all_dones (snd (reset log_engine (log_env3 10))) =
       Some (\<lambda>agent. if agent \<in> set (possible_agents (log_env3 10)) then Some False else None)"
    "env (snd (reset log_engine (log_env3 10))) =
       generate_map log_engine (env_reset log_engine (env (log_env3 10)))"
    by blast+
  then show ?thesis
    using r3 fr ags pos ok dom by (simp add: log_engine_def)
qed

lemma not_agent_reported:
  assumes "\<not> agent_reported eng s agent" and "i < length (possible_agents s)"
    and "possible_agents s ! i = agent"
  shows "\<not> reported eng (env s) (handles s) (max_num_agents s) i"
  using assms by (auto simp: agent_reported_def list_ex_iff)

lemma p_all_dones_unreported:
  assumes "p_all_dones eng s False = Inr dones"
    and "length (possible_agents s) = max_num_agents s"
    and "dones agent = Some x"
    and "\<not> agent_reported eng s agent"
  shows "x = True"
proof -
  from assms(1) obtain ds where
    ds: "dones_handles eng (env s) (handles s) (replicate (max_num_agents s) True) = Inr ds"
    and dones: "dones = dict_comp (set (agents s)) (zip (possible_agents s) ds)"
    by (auto simp: p_all_dones_def split: sum.splits)
  from assms(3) [unfolded dones] obtain i where
    i: "i < length (possible_agents s)" and a: "possible_agents s ! i = agent" and x: "ds ! i = x"
    by (auto dest: dict_comp_zip_Some)
  have nr: "\<not> reported eng (env s) (handles s) (length (replicate (max_num_agents s) True)) i"
    using not_agent_reported [OF assms(4) i a] by simp
  have "ds ! i = replicate (max_num_agents s) True ! i"
    by (rule dones_handles_untouched [OF ds _ nr]) (use i assms(2) in simp)
  with x i assms(2) show ?thesis by simp
qed

lemma p_all_rewards_unreported:
  assumes "p_all_rewards eng s = Inr rewards"
    and "length (possible_agents s) = max_num_agents s"
    and "rewards agent = Some x"
    and "\<not> agent_reported eng s agent"
  shows "x = 0"
proof -
  from assms(1) obtain rs where
    rs: "reward_handles eng (env s) (handles s) (replicate (max_num_agents s) 0) = Inr rs"
    and rewards: "rewards = dict_comp (set (agents s)) (zip (possible_agents s) rs)"
    by (auto simp: p_all_rewards_def split: sum.splits)
  from assms(3) [unfolded rewards] obtain i where
    i: "i < length (possible_agents s)" and a: "possible_agents s ! i = agent" and x: "rs ! i = x"
    by (auto dest: dict_comp_zip_Some)
  have nr: "\<not> reported eng (env s) (handles s) (length (replicate (max_num_agents s) (0::real))) i"
    using not_agent_reported [OF assms(4) i a] by simp
  have "rs ! i = replicate (max_num_agents s) 0 ! i"
    by (rule reward_handles_untouched [OF rs _ nr]) (use i assms(2) in simp)
  with x i assms(2) show ?thesis by simp
qed

lemma agent_reported_cong:
  assumes "env s' = env s" "handles s' = handles s" "max_num_agents s' = max_num_agents s"
    "possible_agents s' = possible_agents s"
  shows "agent_reported eng s' agent = agent_reported eng s agent"
  by (simp add: agent_reported_def assms)

text \<open>
  C9.  In a step that does not end the episode, a live agent none of whose positions is
  reported by a handle's \<^verbatim>\<open>get_agent_id\<close> is returned with the done flag \<open>True\<close> and the
  reward 0: the initial entries of the two arrays, which only reported positions
  overwrite.
\<close>

theorem dead_agent_done_no_reward:
  assumes "reachable eng s"
    and "fst (step eng s all_actions) = Inr (observes, rewards, dones, infos)"
    and "s' = snd (step eng s all_actions)"
    and "\<not> fst (env_step eng (env (snd (send_actions eng s all_actions))))"
    and "frames s + 1 < max_frames s"
    and "agent \<in> set (agents s')"
    and "\<not> agent_reported eng s' agent"
  shows "dones agent = Some True \<and> rewards agent = Some 0"
proof -
  have inv: "env_inv s" by (rule reachable_inv [OF assms(1)])
  from assms(2) obtain s2 s4 where
    sa: "send_actions eng s all_actions = (Inr (), s2)"
    and s4: "s4 = s2\<lparr> frames := frames s2 + 1, env := snd (env_step eng (env s2)) \<rparr>"
    and dn: "p_all_dones eng s4 (fst (env_step eng (env s2)) \<or> max_frames s2 \<le> frames s2 + 1)
               = Inr dones"
    and rw: "p_all_rewards eng s4 = Inr rewards"
    and s': "snd (step eng s all_actions) = s4\<lparr> all_dones := Some dones \<rparr>"
    by (rule step_Inr)
  from sa inv obtain kept arr where
    s2: "s2 = s\<lparr> agents := kept,
             env := foldl (\<lambda>e (h, a). env_set_action eng h a e) (env_clear_dead eng (env s))
                      (action_calls (handles s) (team_sizes s) arr) \<rparr>"
    by (rule send_actions_Inr)
  have fr: "frames s2 = frames s" "max_frames s2 = max_frames s" by (simp_all add: s2)
  from assms(4,5) have "\<not> (fst (env_step eng (env s2)) \<or> max_frames s2 \<le> frames s2 + 1)"
    by (simp add: sa fr)
  with dn have dn': "p_all_dones eng s4 False = Inr dones" by simp
  have inv': "env_inv s'" unfolding assms(3) by (rule step_inv [OF inv])
  then have "length (possible_agents s') = max_num_agents s'"
    and "set (agents s') \<subseteq> set (possible_agents s')"
    by (simp_all add: env_inv_def)
  then have len: "length (possible_agents s4) = max_num_agents s4"
    and sub: "set (agents s4) \<subseteq> set (possible_agents s4)"
    by (simp_all add: assms(3) s')
  have live: "agent \<in> set (agents s4)" using assms(6) by (simp add: assms(3) s')
  have nr: "\<not> agent_reported eng s4 agent"
    using assms(7) agent_reported_cong [of s' s4 eng agent] by (simp add: assms(3) s')
  from p_all_dones_dom [OF dn' len] live sub obtain x where x: "dones agent = Some x"
    by blast
  from p_all_rewards_dom [OF rw len] live sub obtain y where y: "rewards agent = Some y"
    by blast
  from p_all_dones_unreported [OF dn' len x nr] p_all_rewards_unreported [OF rw len y nr] x y
  show ?thesis by simp
qed

theorem dead_agent_done_no_reward_witness:
  "reachable log_engine (log_env1 10) \<and>
   fst (step log_engine (log_env1 10) log_actions) = Inr (log_result1 10) \<and>
   \<not> fst (env_step log_engine (env (snd (send_actions log_engine (log_env1 10) log_actions)))) \<and>
   frames (log_env1 10) + 1 < max_frames (log_env1 10) \<and>
   ''blue_0'' \<in> set (agents (log_env2 10)) \<and>
   \<not> agent_reported log_engine (log_env2 10) ''blue_0'' \<and>
   fst (snd (snd (log_result1 10))) ''blue_0'' = Some True \<and>
   fst (snd (log_result1 10)) ''blue_0'' = Some 0 \<and>
   map (fst (snd (snd (log_result1 10)))) [''red_0'', ''blue_1''] = [Some False, Some False] \<and>
   map (fst (snd (log_result1 10))) [''red_0'', ''blue_1''] = [Some 1, Some 2]"
proof -
  have res: "fst (step log_engine (log_env1 10) log_actions) =
      Inr (fst (log_result1 10), fst (snd (log_result1 10)),
           fst (snd (snd (log_result1 10))), snd (snd (snd (log_result1 10))))"
    by (simp only: result_collapse log_step1_ok)
  have eng: "\<not> fst (env_step log_engine (env (snd (send_actions log_engine (log_env1 10) log_actions))))"
    by code_simp
  have budget: "frames (log_env1 10) + 1 < max_frames (log_env1 10)"
    by code_simp
  have live: "''blue_0'' \<in> set (agents (log_env2 10))" by code_simp
  have dead: "\<not> agent_reported log_engine (log_env2 10) ''blue_0''" by code_simp
  have others: "map (fst (snd (snd (log_result1 10)))) [''red_0'', ''blue_1''] = [Some False, Some False]"
    "map (fst (snd (log_result1 10))) [''red_0'', ''blue_1''] = [Some 1, Some 2]"
    by code_simp+
  have live': "''blue_0'' \<in> set (agents (snd (step log_engine (log_env1 10) log_actions)))"
    and dead': "\<not> agent_reported log_engine (snd (step log_engine (log_env1 10) log_actions)) ''blue_0''"
    using live dead by (simp_all add: log_env2_def)
  note dead_flags = dead_agent_done_no_reward [OF log_env1_reachable res refl eng budget live' dead']
  with eng budget live dead others show ?thesis
    using log_env1_reachable [of 10] log_step1_ok by blast
qed

lemma obs_has_shape_zeros:
  "length shape = 3 \<Longrightarrow> obs_has_shape shape (np_zeros3 shape)"
proof -
  assume "length shape = 3"
  then obtain h w c where "shape = [h, w, c]"
    by (auto simp: length_Suc_conv numeral_3_eq_3)
  then show ?thesis
    by (simp add: obs_has_shape_def list_all_iff)
qed

lemma p_observe_all_unreported:
  assumes "p_observe_all eng s = Inr d"
    and "env_inv s"
    and "d agent = Some x"
    and "\<not> agent_reported eng s agent"
  shows "\<exists>shape. observation_spaces s agent = Some shape \<and> length shape = 3 \<and>
           x = np_zeros3 shape"
proof -
  from assms(2) have len: "length (possible_agents s) = max_num_agents s"
    and shapes: "\<forall>shape \<in> ran (observation_spaces s). length shape = 3"
    and z: "p_zero_obs s = (\<lambda>agent. map_option np_zeros3 (observation_spaces s agent))"
    by (simp_all add: env_inv_def)
  from assms(1) obtain os where
    os: "observe_handles eng (env s) (handles s) (replicate (max_num_agents s) None) = Inr os"
    and d: "obs_dict (p_zero_obs s) (set (agents s)) (zip (possible_agents s) os) Map.empty
              = Inr d"
    by (auto simp: p_observe_all_def split: sum.splits)
  have none: "os ! i = None" if "i < length (possible_agents s)" "possible_agents s ! i = agent" for i
  proof -
    have nr: "\<not> reported eng (env s) (handles s)
        (length (replicate (max_num_agents s) (None :: obs option))) i"
      using not_agent_reported [OF assms(4) that] by simp
    have "os ! i = replicate (max_num_agents s) None ! i"
      by (rule observe_handles_untouched [OF os _ nr]) (use that len in simp)
    with that len show ?thesis by simp
  qed
  from obs_dict_Some [OF d assms(3)] have "p_zero_obs s agent = Some x"
  proof (elim disjE conjE)
    assume "Map.empty agent = Some x"
    then show ?thesis by simp
  next
    assume "(agent, Some x) \<in> set (zip (possible_agents s) os)"
    then obtain i where "i < length (possible_agents s)" "possible_agents s ! i = agent"
      "os ! i = Some x"
      by (auto simp: in_set_zip)
    with none show ?thesis by simp
  qed
  then obtain shape where sh: "observation_spaces s agent = Some shape" and x: "x = np_zeros3 shape"
    by (auto simp: z)
  from sh shapes have "length shape = 3" by (auto simp: ran_def)
  with sh x show ?thesis by blast
qed

text \<open>
  C4.  In the dictionary that \<^verbatim>\<open>reset\<close> or \<^verbatim>\<open>step\<close> returns, an agent none of whose
  positions is reported by a handle's \<^verbatim>\<open>get_agent_id\<close> has the all-zero tensor of the
  shape of its observation space as its observation.
\<close>

theorem dead_agent_zero_observation:
  assumes "reachable eng s"
    and "observation_call eng s d s'"
    and "d agent = Some x"
    and "\<not> agent_reported eng s' agent"
  shows "\<exists>shape. observation_spaces s' agent = Some shape \<and> length shape = 3 \<and>
           x = np_zeros3 shape \<and> obs_has_shape shape x"
proof -
  have inv: "env_inv s" by (rule reachable_inv [OF assms(1)])
  from assms(2) have "\<exists>shape. observation_spaces s' agent = Some shape \<and> length shape = 3 \<and>
           x = np_zeros3 shape"
  proof cases
    case by_reset
    then have s': "s' = snd (reset eng s)" and ob: "p_observe_all eng s' = Inr d"
      using reset_result [of eng s] by simp_all
    have "env_inv s'" unfolding s' by (rule reset_inv [OF inv])
    from p_observe_all_unreported [OF ob this assms(3,4)] show ?thesis .
  next
    case (by_step all_actions rewards dones infos)
    then have res: "fst (step eng s all_actions) = Inr (d, rewards, dones, infos)"
      and s': "s' = snd (step eng s all_actions)"
      by simp_all
    from res obtain s2 s4 where
      s4: "s4 = s2\<lparr> frames := frames s2 + 1, env := snd (env_step eng (env s2)) \<rparr>"
      and ob: "p_observe_all eng s4 = Inr d"
      and st: "snd (step eng s all_actions) = s4\<lparr> all_dones := Some dones \<rparr>"
      by (rule step_Inr)
    have "env_inv s'" unfolding s' by (rule step_inv [OF inv])
    moreover have "p_observe_all eng s' = p_observe_all eng s4"
      by (simp add: s' st p_observe_all_def cong: sum.case_cong)
    ultimately show ?thesis
      using p_observe_all_unreported [of eng s' d agent x] ob assms(3,4) by simp
  qed
  then show ?thesis by (auto intro: obs_has_shape_zeros)
qed

theorem dead_agent_zero_observation_witness:
  "reachable log_engine (log_env1 10) \<and>
   observation_call log_engine (log_env1 10) (fst (log_result1 10)) (log_env2 10) \<and>
   \<not> agent_reported log_engine (log_env2 10) ''blue_0'' \<and>
   fst (log_result1 10) ''blue_0'' = Some [[[0, 0, 0]]] \<and>
   observation_spaces (log_env2 10) ''blue_0'' = Some [1, 1, 3] \<and>
   np_zeros3 [1, 1, 3] = [[[0, 0, 0]]] \<and>
   (\<exists>shape. observation_spaces (log_env2 10) ''blue_0'' = Some shape \<and> length shape = 3 \<and>
      [[[0, 0, 0]]] = np_zeros3 shape \<and> obs_has_shape shape [[[0, 0, 0 :: real]]])"
proof -
  have "step log_engine (log_env1 10) log_actions =
      (Inr (fst (log_result1 10), fst (snd (log_result1 10)),
           fst (snd (snd (log_result1 10))), snd (snd (snd (log_result1 10)))), log_env2 10)"
    using log_step1_ok by (simp add: log_env2_def prod_eq_iff)
  then have call: "observation_call log_engine (log_env1 10) (fst (log_result1 10)) (log_env2 10)"
    by (rule by_step)
  have dead: "\<not> agent_reported log_engine (log_env2 10) ''blue_0''" by code_simp
  have ob: "fst (log_result1 10) ''blue_0'' = Some [[[0, 0, 0]]]" by code_simp
  have sp: "observation_spaces (log_env2 10) ''blue_0'' = Some [1, 1, 3]" by code_simp
  have z: "np_zeros3 [1, 1, 3] = [[[0, 0, 0]]]" by code_simp
  note zero = dead_agent_zero_observation [OF log_env1_reachable call ob dead]
  with call dead ob sp z show ?thesis
    using log_env1_reachable [of 10] by blast
qed

section \<open>The observation of an agent alive in the engine\<close>

lemma tile_axis_one: "tile_axis (Suc 0) xs = xs"
  by (simp add: tile_axis_def)

lemma tile_axis_single: "tile_axis r [x] = replicate r x"
  by (induction r) (simp_all add: tile_axis_def)

lemma feat_img_eq:
  "np_tile4 (np_expand_dims_1 (np_expand_dims_1 features)) (1, h, w, 1) =
     map (\<lambda>f. replicate h (replicate w f)) features"
  by (simp add: np_tile4_def np_expand_dims_1_def tile_axis_one tile_axis_single comp_def)

lemma map2_replicate:
  "length xs = n \<Longrightarrow> map2 g xs (replicate n y) = map (\<lambda>x. g x y) xs"
  by (induction xs arbitrary: n) auto

text \<open>
  When lines 87 to 89 do not raise, the concatenation has accepted the shapes, and every
  row of the result is the view of the agent with its features appended to each cell.
\<close>

lemma fin_obs_row:
  assumes "fin_obs view features = Inr fo"
  shows "length fo = length view"
    and "k < length view \<Longrightarrow> fo ! k = map (map (\<lambda>px. px @ features ! k)) (view ! k)"
proof -
  let ?H = "np_shape1 view" and ?W = "np_shape2 view"
  let ?img = "map (\<lambda>f. replicate ?H (replicate ?W f)) features"
  have "fin_obs view features = np_concatenate_last view ?img"
    by (simp only: fin_obs_def Let_def feat_img_eq)
  with assms have ok: "list_all2 (list_all2 (\<lambda>r s. length r = length s)) view ?img"
    and fo: "fo = map2 (map2 (map2 (@))) view ?img"
    by (simp_all add: np_concatenate_last_def split: if_splits)
  from ok have len: "length view = length features"
    by (auto dest: list_all2_lengthD)
  show "length fo = length view" by (simp add: fo len)
  show "fo ! k = map (map (\<lambda>px. px @ features ! k)) (view ! k)" if k: "k < length view"
  proof -
    let ?f = "features ! k"
    from k len have img: "?img ! k = replicate ?H (replicate ?W ?f)" by simp
    from ok k have row: "list_all2 (\<lambda>r s. length r = length s) (view ! k) (?img ! k)"
      by (rule list_all2_nthD)
    then have h: "length (view ! k) = ?H"
      unfolding img by (auto dest: list_all2_lengthD)
    have w: "length r = ?W" if "r \<in> set (view ! k)" for r
    proof -
      from that obtain n where n: "n < length (view ! k)" "view ! k ! n = r"
        by (auto simp: in_set_conv_nth)
      from list_all2_nthD [OF row n(1)] n h show ?thesis by (simp add: img)
    qed
    from k len have "fo ! k = map2 (map2 (@)) (view ! k) (replicate ?H (replicate ?W ?f))"
      by (simp add: fo)
    also have "\<dots> = map (\<lambda>r. map2 (@) r (replicate ?W ?f)) (view ! k)"
      using h by (simp add: map2_replicate)
    also have "\<dots> = map (map (\<lambda>px. px @ ?f)) (view ! k)"
      using w by (intro map_cong refl) (simp add: map2_replicate)
    finally show ?thesis .
  qed
qed

lemma setitems_hit:
  "setitems xs ps = Inr ys \<Longrightarrow> (i, v) \<in> set ps \<Longrightarrow> py_index (length xs) i = Some j \<Longrightarrow>
     \<exists>(i', v') \<in> set ps. py_index (length xs) i' = Some j \<and> ys ! j = v'"
proof (induction xs ps rule: setitems.induct)
  case (1 xs)
  then show ?case by simp
next
  case (2 xs i0 v0 rest)
  from "2.prems"(1) obtain k0 where k0: "py_index (length xs) i0 = Some k0"
    and rest: "setitems (xs[k0 := v0]) rest = Inr ys"
    by (auto split: option.splits)
  show ?case
  proof (cases "(i, v) \<in> set rest")
    case True
    from "2.IH" [OF k0 rest True] "2.prems"(3) show ?thesis by auto
  next
    case False
    with "2.prems"(2) have same: "i = i0" "v = v0" by auto
    with "2.prems"(3) k0 have j: "k0 = j" by simp
    from py_index_less [OF k0] j have jl: "j < length (xs[k0 := v0])" by simp
    from setitems_nth [OF rest jl] show ?thesis
    proof
      assume "ys ! j = xs[k0 := v0] ! j"
      with j jl have "ys ! j = v0" by simp
      with k0 j show ?thesis by auto
    next
      assume "\<exists>(i', v') \<in> set rest. py_index (length (xs[k0 := v0])) i' = Some j \<and> ys ! j = v'"
      then show ?thesis by auto
    qed
  qed
qed

lemma setitems_Some_kept:
  assumes "setitems os (zip ids (map Some fo)) = Inr os1" and "i < length os"
    and "os ! i \<noteq> None \<or> (\<exists>k. k < length ids \<and> k < length fo \<and> py_index (length os) (ids ! k) = Some i)"
  shows "os1 ! i \<noteq> None"
proof -
  have some: "v \<noteq> None" if "(i', v) \<in> set (zip ids (map Some fo))" for i' v
    using that by (auto dest!: set_zip_rightD)
  from assms(3) show ?thesis
  proof
    assume old: "os ! i \<noteq> None"
    from setitems_nth [OF assms(1,2)] show ?thesis
    proof
      assume "os1 ! i = os ! i"
      with old show ?thesis by simp
    next
      assume "\<exists>(i', v) \<in> set (zip ids (map Some fo)). py_index (length os) i' = Some i \<and> os1 ! i = v"
      with some show ?thesis by auto
    qed
  next
    assume "\<exists>k. k < length ids \<and> k < length fo \<and> py_index (length os) (ids ! k) = Some i"
    then obtain k where k: "k < length ids" "k < length fo"
      "py_index (length os) (ids ! k) = Some i"
      by blast
    then have "(ids ! k, Some (fo ! k)) \<in> set (zip ids (map Some fo))"
      by (auto simp: in_set_zip intro!: exI [of _ k])
    from setitems_hit [OF assms(1) this k(3)] some show ?thesis by auto
  qed
qed

lemma observe_handles_written:
  "observe_handles eng e hs os = Inr os' \<Longrightarrow> i < length os \<Longrightarrow>
     os ! i \<noteq> None \<or>
     (\<exists>h \<in> set hs. \<exists>k. k < length (env_get_agent_id eng e h) \<and>
        k < length (fst (env_get_observation eng e h)) \<and>
        py_index (length os) (env_get_agent_id eng e h ! k) = Some i) \<Longrightarrow>
     os' ! i \<noteq> None"
proof (induction hs arbitrary: os)
  case Nil
  then show ?case by simp
next
  case (Cons h hs)
  let ?ids = "env_get_agent_id eng e h"
  obtain view features where vf: "env_get_observation eng e h = (view, features)"
    by (cases "env_get_observation eng e h")
  from Cons.prems(1) vf obtain fo os1 where
    fo: "fin_obs view features = Inr fo"
    and 1: "setitems os (zip ?ids (map Some fo)) = Inr os1"
    and 2: "observe_handles eng e hs os1 = Inr os'"
    by (auto split: sum.splits)
  have len: "length os1 = length os" by (rule setitems_length [OF 1])
  have lfo: "length fo = length view" by (rule fin_obs_row(1) [OF fo])
  from Cons.prems(3) consider
    (now) "os ! i \<noteq> None \<or>
        (\<exists>k. k < length ?ids \<and> k < length fo \<and> py_index (length os) (?ids ! k) = Some i)"
    | (later) "\<exists>h \<in> set hs. \<exists>k. k < length (env_get_agent_id eng e h) \<and>
        k < length (fst (env_get_observation eng e h)) \<and>
        py_index (length os1) (env_get_agent_id eng e h ! k) = Some i"
    by (auto simp: vf lfo len)
  then show ?case
  proof cases
    case now
    from setitems_Some_kept [OF 1 Cons.prems(2) now] have "os1 ! i \<noteq> None" .
    with Cons.IH [OF 2] Cons.prems(2) len show ?thesis by simp
  next
    case later
    with Cons.IH [OF 2] Cons.prems(2) len show ?thesis by simp
  qed
qed

lemma rows_for_single:
  assumes "rows_for eng s i = [(j, k)]"
  shows "alive_at eng s j k i"
    and "alive_at eng s j' k' i \<Longrightarrow> j' = j \<and> k' = k"
proof -
  have rows: "(a, b) \<in> set (batch_rows eng s) \<longleftrightarrow>
      a < length (handles s) \<and> b < length (env_get_agent_id eng (env s) (handles s ! a))" for a b
    by (force simp: batch_rows_def)
  have mem: "(a, b) \<in> set (rows_for eng s i) \<longleftrightarrow> alive_at eng s a b i" for a b
    by (auto simp: rows_for_def rows alive_at_def)
  from mem [of j k] assms show "alive_at eng s j k i" by simp
  from mem [of j' k'] assms show "j' = j \<and> k' = k" if "alive_at eng s j' k' i"
    using that by simp
qed

lemma py_dict_zip_nth:
  assumes "distinct ks" and "length vs = length ks" and "i < length ks"
  shows "py_dict (zip ks vs) (ks ! i) = Some (vs ! i)"
proof -
  from assms(2,3) have "ks ! i \<in> dom (py_dict (zip ks vs))"
    by (simp add: dom_py_dict_zip)
  then obtain x where x: "py_dict (zip ks vs) (ks ! i) = Some x" by blast
  from py_dict_Some [OF x] obtain i' where "i' < length ks" "ks ! i' = ks ! i" "vs ! i' = x"
    by (auto simp: in_set_zip)
  with assms(1,3) have "x = vs ! i" by (simp add: nth_eq_iff_index_eq)
  with x show ?thesis by simp
qed

lemma nth_concat_block:
  "j < length xss \<Longrightarrow> p < length (xss ! j) \<Longrightarrow>
     concat xss ! (sum_list (map length (take j xss)) + p) = xss ! j ! p"
proof (induction xss arbitrary: j)
  case Nil
  then show ?case by simp
next
  case (Cons xs xss)
  show ?case
  proof (cases j)
    case 0
    with Cons.prems show ?thesis by (simp add: nth_append)
  next
    case (Suc j')
    with Cons.prems Cons.IH [of j'] show ?thesis
      by (simp add: nth_append add.assoc)
  qed
qed

lemma per_agent_nth:
  assumes "j < length tsizes" and "sum_list (take j tsizes) \<le> i"
    and "i < sum_list (take j tsizes) + tsizes ! j"
  shows "per_agent tsizes f ! i = f j"
proof -
  let ?xss = "map (\<lambda>j. replicate (tsizes ! j) (f j)) [0..<length tsizes]"
  have lens: "map length ?xss = tsizes"
    by (simp add: comp_def map_nth)
  then have off: "sum_list (map length (take j ?xss)) = sum_list (take j tsizes)"
    by (metis take_map)
  define p where "p = i - sum_list (take j tsizes)"
  with assms(2,3) have i: "i = sum_list (take j tsizes) + p" and p: "p < tsizes ! j"
    by simp_all
  have "concat ?xss ! (sum_list (map length (take j ?xss)) + p) = ?xss ! j ! p"
    by (rule nth_concat_block) (use assms(1) p in simp_all)
  then show ?thesis
    using assms(1) p by (simp add: per_agent_def off i)
qed

text \<open>
  The observation spaces are the ones the constructor declared: \<^verbatim>\<open>reset\<close> and \<^verbatim>\<open>step\<close>
  change neither them nor the lists they were built from.
\<close>

lemma step_keeps:
  "handles (snd (step eng s acts)) = handles s \<and>
   team_sizes (snd (step eng s acts)) = team_sizes s \<and>
   possible_agents (snd (step eng s acts)) = possible_agents s \<and>
   observation_spaces (snd (step eng s acts)) = observation_spaces s"
proof -
  obtain r s2 where sa: "send_actions eng s acts = (r, s2)"
    by (cases "send_actions eng s acts")
  obtain ags e where "snd (send_actions eng s acts) = s\<lparr> agents := ags, env := e \<rparr>"
    by (rule send_actions_state)
  with sa have s2: "s2 = s\<lparr> agents := ags, env := e \<rparr>" by simp
  show ?thesis
  proof (cases r)
    case (Inl err)
    with sa s2 show ?thesis by (simp add: step_unfold_Inl)
  next
    case (Inr u)
    define s4 where "s4 = s2\<lparr> frames := frames s2 + 1, env := snd (env_step eng (env s2)) \<rparr>"
    define d where "d = (fst (env_step eng (env s2)) \<or> max_frames s2 \<le> frames s2 + 1)"
    note st = step_unfold_Inr [OF sa [unfolded Inr] s4_def d_def]
    show ?thesis
      unfolding st by (simp add: s4_def s2 split: sum.splits)
  qed
qed

lemma reachable_declared:
  "reachable eng s \<Longrightarrow>
     \<exists>e1 shapes. p_calc_obs_shapes eng e1 (handles s) = Inr shapes \<and>
       observation_spaces s =
         py_dict (zip (possible_agents s) (per_agent (team_sizes s) (\<lambda>j. shapes ! j)))"
proof (induction rule: reachable.induct)
  case (reachable_init env0 active_handles names msize mframes s)
  define e1 where "e1 = generate_map eng (env_reset eng env0)"
  define tsizes where "tsizes = map (env_get_num eng e1) active_handles"
  from reachable_init obtain ags shapes where
    "p_calc_obs_shapes eng e1 active_handles = Inr shapes"
    "handles s = active_handles" "team_sizes s = tsizes" "possible_agents s = ags"
    "observation_spaces s = py_dict (zip ags (per_agent tsizes (\<lambda>j. shapes ! j)))"
    unfolding init_def Let_def e1_def [symmetric] tsizes_def [symmetric]
    by (auto split: sum.splits if_splits)
  then show ?case by auto
next
  case (reachable_reset s)
  then show ?case by (simp add: reset_state)
next
  case (reachable_step s all_actions)
  then show ?case by (simp add: step_keeps)
qed

lemma observation_call_observed:
  assumes "reachable eng s" and "observation_call eng s d s'"
  shows "reachable eng s'" and "p_observe_all eng s' = Inr d"
proof -
  from assms(2) have "reachable eng s' \<and> p_observe_all eng s' = Inr d"
  proof cases
    case by_reset
    then have s': "s' = snd (reset eng s)" and ob: "p_observe_all eng s' = Inr d"
      using reset_result [of eng s] by simp_all
    with assms(1) show ?thesis by (auto intro: reachable_reset)
  next
    case (by_step all_actions rewards dones infos)
    then have res: "fst (step eng s all_actions) = Inr (d, rewards, dones, infos)"
      and s': "s' = snd (step eng s all_actions)"
      by simp_all
    from res obtain s2 s4 where
      ob: "p_observe_all eng s4 = Inr d"
      and st: "snd (step eng s all_actions) = s4\<lparr> all_dones := Some dones \<rparr>"
      by (rule step_Inr)
    have "p_observe_all eng s' = p_observe_all eng s4"
      by (simp add: s' st p_observe_all_def cong: sum.case_cong)
    with ob s' assms(1) show ?thesis by (auto intro: reachable_step)
  qed
  then show "reachable eng s'" and "p_observe_all eng s' = Inr d" by simp_all
qed

text \<open>
  The entry of the returned dictionary for an agent whose name stands at one position
  only, when the engine lists that position for exactly one row of one batch.
\<close>

lemma p_observe_all_row:
  assumes "env_inv s" and "p_observe_all eng s = Inr d"
    and "distinct (possible_agents s)"
    and "i < length (possible_agents s)" and "possible_agents s ! i \<in> set (agents s)"
    and "rows_for eng s i = [(j, k)]"
    and "env_get_observation eng (env s) (handles s ! j) = (view, features)"
  shows "d (possible_agents s ! i) = Some (map (map (\<lambda>px. px @ features ! k)) (view ! k))"
proof -
  let ?agent = "possible_agents s ! i" and ?n = "max_num_agents s"
  from assms(1) have len: "length (possible_agents s) = ?n"
    by (simp add: env_inv_def)
  note alive = rows_for_single(1) [OF assms(6)]
  then have j: "j < length (handles s)"
    and k: "k < length (env_get_agent_id eng (env s) (handles s ! j))" "k < length view"
    and hit: "py_index ?n (env_get_agent_id eng (env s) (handles s ! j) ! k) = Some i"
    by (simp_all add: alive_at_def assms(7))
  from assms(2) obtain os where
    os: "observe_handles eng (env s) (handles s) (replicate ?n None) = Inr os"
    and d: "obs_dict (p_zero_obs s) (set (agents s)) (zip (possible_agents s) os) Map.empty
              = Inr d"
    by (auto simp: p_observe_all_def split: sum.splits)
  have los: "length os = ?n" using os by (auto dest: observe_handles_length)
  have il: "i < length (replicate ?n (None :: obs option))"
    using assms(4) len by simp
  have "os ! i \<noteq> None"
  proof (rule observe_handles_written [OF os il], rule disjI2, rule bexI [of _ "handles s ! j"])
    show "\<exists>k. k < length (env_get_agent_id eng (env s) (handles s ! j)) \<and>
        k < length (fst (env_get_observation eng (env s) (handles s ! j))) \<and>
        py_index (length (replicate ?n (None :: obs option)))
          (env_get_agent_id eng (env s) (handles s ! j) ! k) = Some i"
      using k hit by (auto simp: assms(7))
    show "handles s ! j \<in> set (handles s)" using j by simp
  qed
  with observe_handles_provenance [OF os il] obtain h fo k' where
    h: "h \<in> set (handles s)"
    and fo: "fin_obs (fst (env_get_observation eng (env s) h))
               (snd (env_get_observation eng (env s) h)) = Inr fo"
    and k': "k' < length fo" "k' < length (env_get_agent_id eng (env s) h)"
      "py_index ?n (env_get_agent_id eng (env s) h ! k') = Some i"
    and val: "os ! i = Some (fo ! k')"
    using il by auto
  from h obtain j' where j': "j' < length (handles s)" "handles s ! j' = h"
    by (auto simp: in_set_conv_nth)
  from fin_obs_row(1) [OF fo] k'(1)
  have "k' < length (fst (env_get_observation eng (env s) h))" by simp
  with j' k'(2,3) have "alive_at eng s j' k' i" by (simp add: alive_at_def)
  from rows_for_single(2) [OF assms(6) this] j'(2) have same: "h = handles s ! j" "k' = k"
    by simp_all
  from fo have fo': "fin_obs view features = Inr fo" by (simp add: same assms(7))
  have row: "os ! i = Some (map (map (\<lambda>px. px @ features ! k)) (view ! k))"
    using val fin_obs_row(2) [OF fo' k(2)] by (simp add: same)
  from assms(4,5) len los have "?agent \<in> dom d"
    using dom_obs_dict [OF d] by (auto simp: in_set_zip intro!: image_eqI [where x = "(?agent, os ! i)"])
  then obtain x where x: "d ?agent = Some x" by blast
  have at: "os ! i' = os ! i" if "i' < length (possible_agents s)" "possible_agents s ! i' = ?agent"
    for i'
    using that assms(3,4) by (simp add: nth_eq_iff_index_eq)
  from obs_dict_Some [OF d x] have "os ! i = Some x"
  proof (elim disjE conjE)
    assume "Map.empty ?agent = Some x"
    then show ?thesis by simp
  next
    assume "(?agent, Some x) \<in> set (zip (possible_agents s) os)"
    then obtain i' where "i' < length (possible_agents s)" "possible_agents s ! i' = ?agent"
      "os ! i' = Some x"
      by (auto simp: in_set_zip)
    with at show ?thesis by simp
  next
    assume "(?agent, None) \<in> set (zip (possible_agents s) os)"
    then obtain i' where "i' < length (possible_agents s)" "possible_agents s ! i' = ?agent"
      "os ! i' = None"
      by (auto simp: in_set_zip)
    with at row show ?thesis by simp
  qed
  with row x show ?thesis by simp
qed

lemma obs_has_shape_concat:
  assumes "obs_has_shape [h, w, c] ob" and "length v = f"
  shows "obs_has_shape [h, w, c + f] (map (map (\<lambda>px. px @ v)) ob)"
  using assms by (auto simp: obs_has_shape_def list_all_iff)

lemma log_engine_static:
  "env_get_view_space log_engine e h = env_get_view_space log_engine e' h'"
  "env_get_feature_space log_engine e h = env_get_feature_space log_engine e' h'"
  by (simp_all add: log_engine_def)

text \<open>
  C7, as stated, fails.  The constructor accepts two teams of one name; the agents at the
  positions 0 and 1 are then both called \<open>red_0\<close>.  The engine lists position 0 as alive,
  with the view \<open>[[[1, 2]]]\<close> and the features \<open>[1]\<close>, and does not list position 1.  The
  view space is 3-dimensional and the feature space 1-dimensional, and \<^verbatim>\<open>reset\<close>
  returns; but the entry of \<open>red_0\<close> in the returned dictionary is the all-zero tensor
  written for position 1, not the concatenation \<open>[[[1, 2, 1]]]\<close>.
\<close>

theorem alive_agent_observation_counterexample:
  "\<not> isl (init log_engine [] [0, 1] [''red'', ''red''] 45 10) \<and>
   fst (reset log_engine twin_env0) = Inr twin_obs \<and>
   possible_agents twin_env1 = [''red_0'', ''red_0'', ''red_1''] \<and>
   agents twin_env1 = [''red_0'', ''red_0'', ''red_1''] \<and>
   env_get_view_space log_engine (env twin_env1) (handles twin_env1 ! 0) = [1, 1, 2] \<and>
   env_get_feature_space log_engine (env twin_env1) (handles twin_env1 ! 0) = [1] \<and>
   rows_for log_engine twin_env1 0 = [(0, 0)] \<and>
   env_get_observation log_engine (env twin_env1) (handles twin_env1 ! 0) =
     ([[[[1, 2]]]], [[1]]) \<and>
   fin_obs [[[[1, 2]]]] [[1]] = Inr [[[[1, 2, 1]]]] \<and>
   possible_agents twin_env1 ! 0 = ''red_0'' \<and>
   twin_obs ''red_0'' = Some [[[0, 0, 0]]] \<and>
   [[[0, 0, 0]]] \<noteq> [[[1, 2, 1 :: real]]]"
proof -
  have built: "\<not> isl (init log_engine [] [0, 1] [''red'', ''red''] 45 10)"
    by code_simp
  have "\<not> isl (fst (reset log_engine twin_env0))" by code_simp
  then have ret: "fst (reset log_engine twin_env0) = Inr twin_obs"
    by (simp add: twin_obs_def)
  have names: "possible_agents twin_env1 = [''red_0'', ''red_0'', ''red_1'']"
    "agents twin_env1 = [''red_0'', ''red_0'', ''red_1'']"
    "possible_agents twin_env1 ! 0 = ''red_0''"
    by code_simp+
  have spaces: "env_get_view_space log_engine (env twin_env1) (handles twin_env1 ! 0) = [1, 1, 2]"
    "env_get_feature_space log_engine (env twin_env1) (handles twin_env1 ! 0) = [1]"
    by code_simp+
  have alive: "rows_for log_engine twin_env1 0 = [(0, 0)]"
    by code_simp
  have batch: "env_get_observation log_engine (env twin_env1) (handles twin_env1 ! 0) =
     ([[[[1, 2]]]], [[1]])"
    by code_simp
  have cat: "fin_obs [[[[1, 2]]]] [[1]] = Inr [[[[1, 2, 1]]]]"
    by code_simp
  have zero: "twin_obs ''red_0'' = Some [[[0, 0, 0]]]"
    by code_simp
  have "[[[0, 0, 0]]] \<noteq> [[[1, 2, 1 :: real]]]" by simp
  with built ret names spaces alive batch cat zero show ?thesis by blast
qed

text \<open>
  C7, amended.  Let the agent ids be distinct, and let the engine keep its contract: the
  view and feature spaces of a handle do not depend on the engine state, the positions a
  handle lists are those of its team, a position is listed for one batch row only, and
  the row has the shapes of the handle's spaces.  Then for an agent alive in the engine
  that \<^verbatim>\<open>reset\<close> or \<^verbatim>\<open>step\<close> returns, the observation in the returned dictionary is the
  agent's view with its feature vector appended to the channels of every cell, and its
  shape is the declared shape of the agent's observation space: height, width, view
  channels plus feature length.
\<close>

theorem alive_agent_observation:
  assumes "reachable eng s"
    and "observation_call eng s d s'"
    and "\<And>e h. env_get_view_space eng e h = env_get_view_space eng (env s') h"
    and "\<And>e h. env_get_feature_space eng e h = env_get_feature_space eng (env s') h"
    and "distinct (possible_agents s')"
    and "i < length (possible_agents s')"
    and "possible_agents s' ! i = agent"
    and "agent \<in> set (agents s')"
    and "rows_for eng s' i = [(j, k)]"
    and "sum_list (take j (team_sizes s')) \<le> i"
    and "i < sum_list (take j (team_sizes s')) + team_sizes s' ! j"
    and "env_get_observation eng (env s') (handles s' ! j) = (view, features)"
    and "view_space = env_get_view_space eng (env s') (handles s' ! j)"
    and "feature_space = env_get_feature_space eng (env s') (handles s' ! j)"
    and "obs_has_shape view_space (view ! k)"
    and "[length (features ! k)] = feature_space"
  shows "d agent = Some (map (map (\<lambda>px. px @ features ! k)) (view ! k)) \<and>
         length view_space = 3 \<and> length feature_space = 1 \<and>
         observation_spaces s' agent =
           Some (take 2 view_space @ [view_space ! 2 + feature_space ! 0]) \<and>
         obs_has_shape (take 2 view_space @ [view_space ! 2 + feature_space ! 0])
           (map (map (\<lambda>px. px @ features ! k)) (view ! k))"
proof -
  note r' = observation_call_observed(1) [OF assms(1,2)]
  note ob = observation_call_observed(2) [OF assms(1,2)]
  have inv: "env_inv s'" by (rule reachable_inv [OF r'])
  then have len: "length (possible_agents s') = max_num_agents s'"
    and lt: "length (team_sizes s') = length (handles s')"
    and mx: "max_num_agents s' = sum_list (team_sizes s')"
    by (simp_all add: env_inv_def)
  from rows_for_single(1) [OF assms(9)] have j: "j < length (handles s')"
    by (simp add: alive_at_def)
  have live: "possible_agents s' ! i \<in> set (agents s')"
    using assms(7,8) by simp
  have row: "d agent = Some (map (map (\<lambda>px. px @ features ! k)) (view ! k))"
    using p_observe_all_row [OF inv ob assms(5,6) live assms(9,12)] assms(7) by simp
  from reachable_declared [OF r'] obtain e1 shapes where
    calc: "p_calc_obs_shapes eng e1 (handles s') = Inr shapes"
    and decl: "observation_spaces s' =
         py_dict (zip (possible_agents s') (per_agent (team_sizes s') (\<lambda>j. shapes ! j)))"
    by blast
  have vs: "env_get_view_space eng e1 (handles s' ! j) = view_space"
    and fs: "env_get_feature_space eng e1 (handles s' ! j) = feature_space"
    using assms(3) [of e1] assms(4) [of e1] by (simp_all add: assms(13,14))
  have l3: "length view_space = 3" and l1: "length feature_space = 1"
    using p_calc_obs_shapes_Inr(3,4) [OF calc j] by (simp_all add: vs fs)
  have sj: "shapes ! j = take 2 view_space @ [view_space ! 2 + feature_space ! 0]"
    using p_calc_obs_shapes_Inr(2) [OF calc j] by (simp add: vs fs)
  have "observation_spaces s' (possible_agents s' ! i) =
      Some (per_agent (team_sizes s') (\<lambda>j. shapes ! j) ! i)"
    unfolding decl
    by (rule py_dict_zip_nth [OF assms(5) _ assms(6)]) (simp add: length_per_agent len mx)
  also have "per_agent (team_sizes s') (\<lambda>j. shapes ! j) ! i = shapes ! j"
    by (rule per_agent_nth [OF _ assms(10,11)]) (simp add: lt j)
  finally have sp: "observation_spaces s' agent =
      Some (take 2 view_space @ [view_space ! 2 + feature_space ! 0])"
    by (simp add: assms(7) sj)
  from l3 obtain h w c where v3: "view_space = [h, w, c]"
    by (auto simp: length_Suc_conv numeral_3_eq_3)
  from l1 obtain f where f1: "feature_space = [f]"
    by (auto simp: length_Suc_conv)
  from assms(16) have "length (features ! k) = f" by (simp add: f1)
  with assms(15) have "obs_has_shape [h, w, c + f] (map (map (\<lambda>px. px @ features ! k)) (view ! k))"
    unfolding v3 by (rule obs_has_shape_concat)
  then have "obs_has_shape (take 2 view_space @ [view_space ! 2 + feature_space ! 0])
           (map (map (\<lambda>px. px @ features ! k)) (view ! k))"
    by (simp add: v3 f1)
  with row l3 l1 sp show ?thesis by blast
qed

theorem alive_agent_observation_witness:
  "reachable log_engine (log_env1 10) \<and>
   observation_call log_engine (log_env1 10) (fst (log_result1 10)) (log_env2 10) \<and>
   distinct (possible_agents (log_env2 10)) \<and>
   possible_agents (log_env2 10) ! 0 = ''red_0'' \<and>
   ''red_0'' \<in> set (agents (log_env2 10)) \<and>
   rows_for log_engine (log_env2 10) 0 = [(0, 0)] \<and>
   team_sizes (log_env2 10) = [1, 2] \<and>
   env_get_observation log_engine (env (log_env2 10)) (handles (log_env2 10) ! 0) =
     ([[[[1, 2]]]], [[1]]) \<and>
   env_get_view_space log_engine (env (log_env2 10)) (handles (log_env2 10) ! 0) = [1, 1, 2] \<and>
   env_get_feature_space log_engine (env (log_env2 10)) (handles (log_env2 10) ! 0) = [1] \<and>
   obs_has_shape [1, 1, 2] [[[1, 2 :: real]]] \<and>
   fst (log_result1 10) ''red_0'' = Some [[[1, 2, 1]]] \<and>
   observation_spaces (log_env2 10) ''red_0'' = Some [1, 1, 3] \<and>
   obs_has_shape [1, 1, 3] [[[1, 2, 1 :: real]]]"
proof -
  have "step log_engine (log_env1 10) log_actions =
      (Inr (fst (log_result1 10), fst (snd (log_result1 10)),
           fst (snd (snd (log_result1 10))), snd (snd (snd (log_result1 10)))), log_env2 10)"
    using log_step1_ok by (simp add: log_env2_def prod_eq_iff)
  then have call: "observation_call log_engine (log_env1 10) (fst (log_result1 10)) (log_env2 10)"
    by (rule by_step)
  have dist: "distinct (possible_agents (log_env2 10))" by code_simp
  have i: "0 < length (possible_agents (log_env2 10))" by code_simp
  have pos: "possible_agents (log_env2 10) ! 0 = ''red_0''" by code_simp
  have live: "''red_0'' \<in> set (agents (log_env2 10))" by code_simp
  have rows: "rows_for log_engine (log_env2 10) 0 = [(0, 0)]" by code_simp
  have ts: "team_sizes (log_env2 10) = [1, 2]" by code_simp
  have block: "sum_list (take 0 (team_sizes (log_env2 10))) \<le> 0"
    "0 < sum_list (take 0 (team_sizes (log_env2 10))) + team_sizes (log_env2 10) ! 0"
    by code_simp+
  have batch: "env_get_observation log_engine (env (log_env2 10)) (handles (log_env2 10) ! 0) =
     ([[[[1, 2]]]], [[1]])"
    by code_simp
  have vs: "env_get_view_space log_engine (env (log_env2 10)) (handles (log_env2 10) ! 0) = [1, 1, 2]"
    and fs: "env_get_feature_space log_engine (env (log_env2 10)) (handles (log_env2 10) ! 0) = [1]"
    by code_simp+
  have shp: "obs_has_shape [1, 1, 2] [[[1, 2 :: real]]]" by code_simp
  have conf: "obs_has_shape [1, 1, 2] ([[[[1, 2 :: real]]]] ! 0)"
    "[length ([[1 :: real]] ! 0)] = [1]"
    using shp by simp_all
  note fact = alive_agent_observation
    [OF log_env1_reachable call log_engine_static(1) log_engine_static(2) dist i pos live rows
      block batch vs [symmetric] fs [symmetric] conf]
  then have "fst (log_result1 10) ''red_0'' = Some [[[1, 2, 1]]]"
    "observation_spaces (log_env2 10) ''red_0'' = Some [1, 1, 3]"
    "obs_has_shape [1, 1, 3] [[[1, 2, 1 :: real]]]"
    by simp_all
  with call dist pos live rows ts batch vs fs shp show ?thesis
    using log_env1_reachable [of 10] by blast
qed

end
